theory Spec2Isabelle
  imports Complex_Main "HOL-Library.Word" "HOL-Library.Multiset"
begin

unbundle bit_operations_syntax

section \<open>Machine types\<close>

type_synonym u8 = "8 word"
type_synonym u16 = "16 word"
type_synonym u32 = "32 word"
type_synonym i16 = "16 word"

section \<open>C strings\<close>

text \<open>
  A C string is the list of its characters before the terminating NUL. Reading the
  character at the end of the list gives NUL, as \<^verbatim>\<open>*s\<close> does in C. A list that
  holds a NUL character is read by every function below exactly as the string cut at
  that NUL would be, since no function here steps over a NUL.
\<close>

fun peek :: "string \<Rightarrow> char" where
  "peek [] = CHR 0x00"
| "peek (c # _) = c"

text \<open>\<^verbatim>\<open>strncmp(s, pfx, strlen(pfx)) == 0\<close> for a literal \<open>pfx\<close> without NUL.\<close>

definition starts_with :: "string \<Rightarrow> string \<Rightarrow> bool" where
  "starts_with s pfx = (take (length pfx) s = pfx)"

text \<open>
  \<^verbatim>\<open>strstr(hay, needle)\<close>: the suffix of \<open>hay\<close> that starts at the first occurrence of
  \<open>needle\<close>, or \<open>None\<close> for the NULL pointer.
\<close>

fun strstr :: "string \<Rightarrow> string \<Rightarrow> string option" where
  "strstr [] needle = (if needle = [] then Some [] else None)"
| "strstr (c # cs) needle =
     (if starts_with (c # cs) needle then Some (c # cs) else strstr cs needle)"

section \<open>Primitive parsers (api\_parse.c)\<close>

definition is_ws :: "char \<Rightarrow> bool" where
  "is_ws c = (c = CHR '' '' \<or> c = CHR 0x09)"

definition skip_ws :: "string \<Rightarrow> string" where
  "skip_ws s = dropWhile is_ws s"

definition is_term_or_eol :: "char \<Rightarrow> bool" where
  "is_term_or_eol c =
     (c = CHR 0x00 \<or> c = CHR '','' \<or> c = CHR '' '' \<or> c = CHR 0x09 \<or> c = CHR 0x0D \<or> c = CHR 0x0A)"

definition is_digit :: "char \<Rightarrow> bool" where
  "is_digit c = (48 \<le> (of_char c :: nat) \<and> (of_char c :: nat) \<le> 57)"

definition digit_nat :: "char \<Rightarrow> nat" where
  "digit_nat c = of_char c - 48"

text \<open>
  The digit loop of \<^verbatim>\<open>api_parse_u32\<close>. It returns the unread rest of the string, the
  accumulator and the digit count, or \<open>None\<close> where the C function returns 0 from
  inside the loop (the overflow test). The count \<^verbatim>\<open>nd\<close> is an \<^verbatim>\<open>int\<close> in C and is only
  compared with 0; lines are at most 255 characters long, so it is a \<open>nat\<close> here.
\<close>

fun u32_digits :: "string \<Rightarrow> u32 \<Rightarrow> nat \<Rightarrow> (string \<times> u32 \<times> nat) option" where
  "u32_digits [] acc nd = Some ([], acc, nd)"
| "u32_digits (c # cs) acc nd =
     (if is_digit c then
        (let d = (of_nat (digit_nat c) :: u32) in
         if acc > 429496729 \<or> (acc = 429496729 \<and> d > 5) then None
         else u32_digits cs (acc * 10 + d) (nd + 1))
      else Some (c # cs, acc, nd))"

text \<open>
  \<^verbatim>\<open>int api_parse_u32(const char* s, uint32_t* out)\<close>: \<open>Some v\<close> for return value 1 with
  \<^verbatim>\<open>*out = v\<close>, \<open>None\<close> for return value 0. Every caller passes non-null pointers.
\<close>

definition api_parse_u32 :: "string \<Rightarrow> u32 option" where
  "api_parse_u32 s =
     (case u32_digits (skip_ws s) 0 0 of
        None \<Rightarrow> None
      | Some (rest, acc, nd) \<Rightarrow>
          if nd = 0 then None
          else if \<not> is_term_or_eol (peek (skip_ws rest)) then None
          else Some acc)"

text \<open>The number a digit string denotes, most significant digit first.\<close>

definition dec_from :: "nat \<Rightarrow> string \<Rightarrow> nat" where
  "dec_from a ds = foldl (\<lambda>a c. a * 10 + digit_nat c) a ds"

definition dec_value :: "string \<Rightarrow> nat" where
  "dec_value ds = dec_from 0 ds"

text \<open>
  The shape of an accepted string in the words of the specification: leading blanks,
  digits that fit 32 bits, trailing blanks, then a terminator out of NUL, comma, space,
  tab, CR, LF. The four arguments are the four parts; the string is their concatenation.
\<close>

definition u32_form_claimed :: "string \<Rightarrow> string \<Rightarrow> string \<Rightarrow> string \<Rightarrow> bool" where
  "u32_form_claimed lead ds trail rest =
     (list_all is_ws lead \<and> ds \<noteq> [] \<and> list_all is_digit ds \<and> dec_value ds < 2 ^ 32 \<and>
      list_all is_ws trail \<and> is_term_or_eol (peek rest))"

text \<open>
  The shape the code accepts: as above, but the character after the trailing blanks is
  NUL, comma, CR or LF (a space or tab there is one more trailing blank).
\<close>

definition u32_form :: "string \<Rightarrow> string \<Rightarrow> string \<Rightarrow> string \<Rightarrow> bool" where
  "u32_form lead ds trail rest =
     (list_all is_ws lead \<and> ds \<noteq> [] \<and> list_all is_digit ds \<and> dec_value ds < 2 ^ 32 \<and>
      list_all is_ws trail \<and> is_term_or_eol (peek rest) \<and> \<not> is_ws (peek rest))"

subsection \<open>Binary floating point\<close>

text \<open>
  A finite \<^verbatim>\<open>float\<close> or \<^verbatim>\<open>double\<close> is a sign and a magnitude, and the magnitude is a
  rational number. The sign is kept apart from the magnitude because C distinguishes
  \<open>-0.0\<close> from \<open>0.0\<close>. Infinities, NaN and subnormal numbers are not represented: the
  one function that produces floating-point values here, \<^verbatim>\<open>api_parse_float_fixed3\<close>, yields
  zero or a magnitude between \<open>0.001\<close> and \<open>2\<^sup>3\<^sup>2\<close>, far inside the range of the
  normal numbers of both formats.
\<close>

record c_float =
  fl_neg :: bool
  fl_mag :: rat

text \<open>The number of binary digits of a positive integer.\<close>

function bit_length :: "int \<Rightarrow> int" where
  "bit_length n = (if n \<le> 0 then 0 else 1 + bit_length (n div 2))"
  by pat_completeness auto
termination
  by (relation "measure nat") auto

declare bit_length.simps [simp del]

text \<open>The integer \<open>e\<close> with \<open>2\<^sup>e \<le> q < 2\<^sup>e\<^sup>+\<^sup>1\<close>, for a positive \<open>q\<close>.\<close>

definition ilog2 :: "rat \<Rightarrow> int" where
  "ilog2 q =
     (if 1 \<le> q then bit_length \<lfloor>q\<rfloor> - 1
      else - bit_length (\<lceil>1 / q\<rceil> - 1))"

definition pow2 :: "int \<Rightarrow> rat" where
  "pow2 e = (if 0 \<le> e then 2 ^ nat e else 1 / 2 ^ nat (- e))"

text \<open>The nearest integer, a tie going to the even one.\<close>

definition round_even :: "rat \<Rightarrow> int" where
  "round_even x =
     (let f = \<lfloor>x\<rfloor>; r = x - of_int f
      in if r < 1 / 2 then f
         else if 1 / 2 < r then f + 1
         else if even f then f
         else f + 1)"

text \<open>
  Rounding a magnitude to \<open>p\<close> significant bits, to nearest and ties to even, which is the
  rounding of every conversion and operation below: \<open>p = 24\<close> for \<^verbatim>\<open>float\<close> and \<open>p = 53\<close>
  for \<^verbatim>\<open>double\<close>. The magnitude is scaled so that its integer part has \<open>p\<close> bits, rounded
  to an integer and scaled back.
\<close>

definition fp_round :: "nat \<Rightarrow> rat \<Rightarrow> rat" where
  "fp_round p q =
     (if q \<le> 0 then 0
      else (let e = ilog2 q - (int p - 1)
            in of_int (round_even (q / pow2 e)) * pow2 e))"

abbreviation to_float :: "rat \<Rightarrow> rat" where
  "to_float \<equiv> fp_round 24"

abbreviation to_double :: "rat \<Rightarrow> rat" where
  "to_double \<equiv> fp_round 53"

subsection \<open>Fixed-point decimals\<close>

text \<open>
  \<^verbatim>\<open>api_parse_float_fixed3\<close> reads a sign, an integer part and up to three decimals into
  \<^verbatim>\<open>neg\<close>, \<^verbatim>\<open>ip\<close> and \<^verbatim>\<open>fp\<close>, and converts them to a \<^verbatim>\<open>float\<close>.
\<close>

text \<open>The integer-part loop: no overflow test, so the accumulator wraps.\<close>

fun f3_int_digits :: "string \<Rightarrow> u32 \<Rightarrow> nat \<Rightarrow> string \<times> u32 \<times> nat" where
  "f3_int_digits [] ip nd = ([], ip, nd)"
| "f3_int_digits (c # cs) ip nd =
     (if is_digit c then f3_int_digits cs (ip * 10 + of_nat (digit_nat c)) (nd + 1)
      else (c # cs, ip, nd))"

text \<open>The fraction loop: a fourth decimal makes the C function return 0.\<close>

fun f3_frac_digits :: "string \<Rightarrow> u32 \<Rightarrow> nat \<Rightarrow> (string \<times> u32 \<times> nat) option" where
  "f3_frac_digits [] fp nd = Some ([], fp, nd)"
| "f3_frac_digits (c # cs) fp nd =
     (if is_digit c then
        (if nd < 3 then f3_frac_digits cs (fp * 10 + of_nat (digit_nat c)) (nd + 1) else None)
      else Some (c # cs, fp, nd))"

text \<open>
  The conversion at the end of the function, from \<^verbatim>\<open>ip\<close> and the thousandths \<^verbatim>\<open>fp\<close>.
  Above \<open>4294966\<close> the integer part is converted in \<^verbatim>\<open>double\<close>:
  \<^verbatim>\<open>(double)ip + (double)fp / 1000.0\<close> is a division and an addition, each rounded to
  \<^verbatim>\<open>double\<close> (the conversions of \<^verbatim>\<open>ip\<close> and \<^verbatim>\<open>fp\<close> are exact), and the cast to \<^verbatim>\<open>float\<close>
  rounds once more. Otherwise \<^verbatim>\<open>ip * 1000U + fp\<close> is computed in \<^verbatim>\<open>uint32_t\<close>, converted to
  \<^verbatim>\<open>float\<close> and divided by \<^verbatim>\<open>1000.0f\<close> in \<^verbatim>\<open>float\<close>, as the FPU of the target does.
\<close>

definition fixed3_to_float :: "u32 \<Rightarrow> u32 \<Rightarrow> rat" where
  "fixed3_to_float ip fp =
     (if ip > 4294966 then
        to_float (to_double (of_int (uint ip) + to_double (of_int (uint fp) / 1000)))
      else
        (let scaled = ip * 1000 + fp
         in to_float (to_float (of_int (uint scaled)) / 1000)))"

definition api_parse_float_fixed3 :: "string \<Rightarrow> c_float option" where
  "api_parse_float_fixed3 s =
     (let s1 = skip_ws s;
          signed = (peek s1 = CHR ''+'' \<or> peek s1 = CHR ''-'');
          neg = (peek s1 = CHR ''-'');
          s2 = (if signed then tl s1 else s1);
          (s3, ip, nd_int) = f3_int_digits s2 0 0
      in case (if peek s3 = CHR ''.'' then f3_frac_digits (tl s3) 0 0 else Some (s3, 0, 0)) of
           None \<Rightarrow> None
         | Some (s4, fp, nd_frac) \<Rightarrow>
             if nd_int = 0 \<and> nd_frac = 0 then None
             else if \<not> is_term_or_eol (peek (skip_ws s4)) then None
             else Some \<lparr>fl_neg = neg,
                        fl_mag = fixed3_to_float ip (fp * 10 ^ (3 - nd_frac))\<rparr>)"

section \<open>Sensor: supported output data rates (sensor\_hal.c)\<close>

text \<open>
  \<^verbatim>\<open>uint32_t Sensor_SnapODR(uint32_t req)\<close>: a cascade of unsigned \<^verbatim>\<open>>=\<close> tests, highest
  rate first.
\<close>

definition Sensor_SnapODR :: "u32 \<Rightarrow> u32" where
  "Sensor_SnapODR req =
     (if req \<ge> 3200 then 3200
      else if req \<ge> 1600 then 1600
      else if req \<ge> 800 then 800
      else if req \<ge> 400 then 400
      else if req \<ge> 200 then 200
      else 100)"

text \<open>The rates the sensor supports, as the specification lists them.\<close>

definition supported_odr :: "u32 list" where
  "supported_odr = [100, 200, 400, 800, 1600, 3200]"


text \<open>
  The two descriptions of the result. The specification: the smallest supported rate that
  is not below the request, and 3200 for a request above 3200. The header sensor\_hal.h:
  the closest supported rate, that is, a supported rate from which no other supported
  rate is nearer to the request; a request midway between two rates has two.
\<close>

definition snap_up :: "u32 \<Rightarrow> u32" where
  "snap_up req = (case find (\<lambda>s. req \<le> s) supported_odr of Some s \<Rightarrow> s | None \<Rightarrow> 3200)"

definition odr_distance :: "u32 \<Rightarrow> u32 \<Rightarrow> int" where
  "odr_distance a b = \<bar>uint a - uint b\<bar>"

definition closest_supported :: "u32 \<Rightarrow> u32 list" where
  "closest_supported req =
     filter (\<lambda>s. list_all (\<lambda>t. odr_distance req s \<le> odr_distance req t) supported_odr)
       supported_odr"

section \<open>CRC-16 (protocol\_crc16.h)\<close>

definition PROTO_CRC16_POLY :: u16 where
  "PROTO_CRC16_POLY = 0x1021"

definition PROTO_CRC16_INIT :: u16 where
  "PROTO_CRC16_INIT = 0xFFFF"

record proto_crc16_t =
  crc :: u16

definition proto_crc16_init :: proto_crc16_t where
  "proto_crc16_init = \<lparr>crc = PROTO_CRC16_INIT\<rparr>"

text \<open>One turn of the inner loop of \<^verbatim>\<open>proto_crc16_update_byte\<close>.\<close>

definition crc_shift :: "u16 \<Rightarrow> u16" where
  "crc_shift c =
     (if c AND 0x8000 \<noteq> 0 then push_bit 1 c XOR PROTO_CRC16_POLY else push_bit 1 c)"

text \<open>The byte is shifted into the high half of the register, then the loop runs 8 times.\<close>

definition proto_crc16_update_byte :: "u16 \<Rightarrow> u8 \<Rightarrow> u16" where
  "proto_crc16_update_byte c b = (crc_shift ^^ 8) (c XOR push_bit 8 (ucast b))"

definition proto_crc16_update :: "proto_crc16_t \<Rightarrow> u8 list \<Rightarrow> proto_crc16_t" where
  "proto_crc16_update st data = \<lparr>crc = foldl proto_crc16_update_byte (crc st) data\<rparr>"

definition proto_crc16_final :: "proto_crc16_t \<Rightarrow> u16" where
  "proto_crc16_final st = crc st"

definition proto_crc16_buf :: "u8 list \<Rightarrow> u16" where
  "proto_crc16_buf data = proto_crc16_final (proto_crc16_update proto_crc16_init data)"

subsection \<open>The reference: CRC-16/CCITT-FALSE as a bit-serial division\<close>

text \<open>
  The parameters of the specification: polynomial \<open>0x1021\<close>, initial value \<open>0xFFFF\<close>, no
  reflection of input or output, final XOR \<open>0x0000\<close>. The reference reads the message as
  one stream of bits, each byte most significant bit first (no input reflection), and
  divides it by the polynomial one bit at a time: the register moves left by one, and the
  polynomial is subtracted when the bit leaving the register differs from the message
  bit. The register is the result as it stands (no output reflection).
\<close>

definition ref_poly :: u16 where "ref_poly = 0x1021"
definition ref_init :: u16 where "ref_init = 0xFFFF"
definition ref_xorout :: u16 where "ref_xorout = 0x0000"

definition ref_step :: "u16 \<Rightarrow> bool \<Rightarrow> u16" where
  "ref_step r b = (if bit r 15 \<noteq> b then push_bit 1 r XOR ref_poly else push_bit 1 r)"

definition msb_first :: "u8 \<Rightarrow> bool list" where
  "msb_first b = map (\<lambda>i. bit b (7 - i)) [0..<8]"

definition crc16_ccitt_false :: "u8 list \<Rightarrow> u16" where
  "crc16_ccitt_false msg = foldl ref_step ref_init (concat (map msb_first msg)) XOR ref_xorout"

text \<open>The bytes of an ASCII string.\<close>

definition bytes_of :: "string \<Rightarrow> u8 list" where
  "bytes_of s = map of_char s"

section \<open>Protocol constants and number formatting (api\_schema.h)\<close>

definition PROTO_EOL :: string where "PROTO_EOL = [CHR 0x0D, CHR 0x0A]"
definition PROTO_MAX_LINE :: nat where "PROTO_MAX_LINE = 256"

text \<open>\<^verbatim>\<open>%lu\<close> and \<^verbatim>\<open>%u\<close>: decimal digits, no padding.\<close>

fun fmt_nat :: "nat \<Rightarrow> string" where
  "fmt_nat n =
     (if n < 10 then [''0123456789'' ! n]
      else fmt_nat (n div 10) @ [''0123456789'' ! (n mod 10)])"

definition fmt_u32 :: "u32 \<Rightarrow> string" where
  "fmt_u32 v = fmt_nat (unat v)"

section \<open>Application context and command handler (main.h, app\_context.c, cmd\_handler.c)\<close>

datatype OpMode_t =
    OP_MODE_INIT | OP_MODE_IDLE | OP_MODE_WAIT_CAL_ZERO | OP_MODE_TRG_CAL_ZERO
  | OP_MODE_WAIT_ARM | OP_MODE_ARMED | OP_MODE_COUNTDOWN | OP_MODE_BURST
  | OP_MODE_BURST_SENDING | OP_MODE_STATIC_RUN | OP_MODE_STREAMING | OP_MODE_ERROR

datatype TrgState_t = TRG_STATE_IDLE | TRG_STATE_ARMED | TRG_STATE_IN_HOLDOFF

datatype I2CState_t =
  I2C_STATE_IDLE | I2C_STATE_WAIT_FIFO_DATA | I2C_STATE_DRAIN_STATUS | I2C_STATE_CLEAR_INT_SOURCE

record TriggerSettings_t =
  k_mult :: c_float
  win_ms :: u32
  hold_ms :: u32

record RuntimeCfg_t =
  hb_ms :: u32
  burst_ms :: u32
  odr_hz :: u32
  stream_rate_hz :: u32

record DiagCounters_t =
  i2c_fail :: u32
  ring_ovf :: u32
  live_drops :: u32
  hb_pauses :: u32
  last_err :: u32

record TimeSync_t =
  has_sync :: bool
  host_ms_at_sync :: "64 word"
  tick_at_sync :: u32

text \<open>\<^verbatim>\<open>AppContext_t\<close> without the three pointers to HAL handles.\<close>

record AppContext_t =
  op_mode :: OpMode_t
  trg_state :: TrgState_t
  state_timer_start_ms :: u32
  cfg :: RuntimeCfg_t
  trigger_settings :: TriggerSettings_t
  tsync :: TimeSync_t
  diag :: DiagCounters_t
  stop_flag :: bool
  is_dumping :: bool
  burst_abort_pending :: bool
  test_trigger_flag :: bool

text \<open>
  What the command handler reaches through the calls it makes: the context, the sampling
  flag and sample ring indices of sensor\_hal.c, the statics of streaming.c, the two
  fields of the sampling timer's init structure, the lines handed to \<^verbatim>\<open>COMM_Sendf\<close> and the
  operations asked of the HAL, both oldest first; and the static \<^verbatim>\<open>g_mode_before_burst\<close> of
  burst\_mgr.c, which the burst manager copies back into the operating mode.
\<close>

datatype hal_call =
    BW_RATE_WriteVerify u8
  | TIM3_Base_Stop_IT
  | TIM3_Base_Init u32 u32

record firmware =
  ctx :: AppContext_t
  g_sampling_active :: bool
  sample_ring_head :: u16
  sample_ring_tail :: u16
  g_i2c_state :: I2CState_t
  g_stream_enabled :: bool
  g_stream_div :: u32
  g_stream_decim :: u32
  g_stream_suspended :: bool
  g_stream_owns_timer :: bool
  tim3_prescaler :: u32
  tim3_period :: u32
  g_mode_before_burst :: OpMode_t
  tx :: "string list"
  hal :: "hal_call list"

text \<open>
  The HAL is not part of the repository. Its two answers that the command handler acts on
  are inputs: whether the verified register write of \<^verbatim>\<open>Sensor_WriteVerifyReg\<close> succeeds and
  whether \<^verbatim>\<open>HAL_TIM_Base_Init\<close> returns \<^verbatim>\<open>HAL_OK\<close>.
\<close>

record hal_env =
  write_verify_ok :: bool
  tim_base_init_ok :: bool

text \<open>
  A call either returns, or ends in \<^verbatim>\<open>Error_Handler\<close>, which never returns, or reaches a
  handler that this development does not model.
\<close>

datatype outcome = Returned firmware | Halted firmware | NotModelled

subsection \<open>Verbs (api\_schema.h) and defaults (app\_context.h)\<close>

definition CMD_SET_CFG :: string where "CMD_SET_CFG = ''SET_CFG''"
definition CMD_SET_TRG :: string where "CMD_SET_TRG = ''SET_TRG''"
definition CMD_HB :: string where "CMD_HB = ''HB''"
definition CMD_STOP :: string where "CMD_STOP = ''STOP''"

definition AppContext_Init :: AppContext_t where
  "AppContext_Init =
     \<lparr>op_mode = OP_MODE_INIT, trg_state = TRG_STATE_IDLE, state_timer_start_ms = 0,
      cfg = \<lparr>hb_ms = 1000, burst_ms = 5000, odr_hz = 800, stream_rate_hz = 100\<rparr>,
      trigger_settings =
        \<lparr>k_mult = \<lparr>fl_neg = False, fl_mag = 5\<rparr>, win_ms = 100, hold_ms = 1500\<rparr>,
      tsync = \<lparr>has_sync = False, host_ms_at_sync = 0, tick_at_sync = 0\<rparr>,
      diag = \<lparr>i2c_fail = 0, ring_ovf = 0, live_drops = 0, hb_pauses = 0, last_err = 0\<rparr>,
      stop_flag = False, is_dumping = False, burst_abort_pending = False,
      test_trigger_flag = False\<rparr>"

text \<open>The firmware after \<^verbatim>\<open>AppContext_Init\<close>, with every static at its initialiser.\<close>

definition firmware_boot :: firmware where
  "firmware_boot =
     \<lparr>ctx = AppContext_Init, g_sampling_active = False, sample_ring_head = 0,
      sample_ring_tail = 0, g_i2c_state = I2C_STATE_IDLE, g_stream_enabled = False,
      g_stream_div = 8, g_stream_decim = 0, g_stream_suspended = False,
      g_stream_owns_timer = False, tim3_prescaler = 0, tim3_period = 0,
      g_mode_before_burst = OP_MODE_IDLE, tx = [], hal = []\<rparr>"

subsection \<open>Sending (comm.c, telemetry.c)\<close>

text \<open>
  \<^verbatim>\<open>COMM_Sendf\<close> formats into a buffer of \<open>PROTO_MAX_LINE + 1\<close> bytes and hands the line to
  \<^verbatim>\<open>Telemetry_Write\<close>; a line that does not fit the buffer is dropped. The argument is the
  formatted line. Whether the TX ring then has room for it is not modelled: \<open>tx\<close> lists
  the lines handed over.
\<close>

definition COMM_Sendf :: "string \<Rightarrow> firmware \<Rightarrow> firmware" where
  "COMM_Sendf line fw =
     (if length line = 0 \<or> length line \<ge> PROTO_MAX_LINE + 1 then fw
      else fw\<lparr>tx := tx fw @ [line]\<rparr>)"

definition Telemetry_SendACK :: "string \<Rightarrow> firmware \<Rightarrow> firmware" where
  "Telemetry_SendACK subject = COMM_Sendf (''ACK,SUBJECT='' @ subject @ PROTO_EOL)"

definition Telemetry_SendNACK :: "string \<Rightarrow> string \<Rightarrow> u32 \<Rightarrow> firmware \<Rightarrow> firmware" where
  "Telemetry_SendNACK subject reason code =
     COMM_Sendf (''NACK,SUBJECT='' @ subject @ '',reason='' @ reason @ '',code='' @ fmt_u32 code
                 @ PROTO_EOL)"

definition Telemetry_SendERROR :: "string \<Rightarrow> u32 \<Rightarrow> string \<Rightarrow> firmware \<Rightarrow> firmware" where
  "Telemetry_SendERROR src code msg =
     COMM_Sendf (''ERROR,src='' @ src @ '',code='' @ fmt_u32 code @ '',msg='' @ [CHR 0x22] @ msg
                 @ [CHR 0x22] @ PROTO_EOL)"

text \<open>\<^verbatim>\<open>Error_Handler\<close> (main.c): one last line, then the blink loop for ever.\<close>

definition Error_Handler :: "firmware \<Rightarrow> outcome" where
  "Error_Handler fw = Halted (Telemetry_SendERROR ''HAL'' 0 ''fatal_error'' fw)"

subsection \<open>Sensor and streaming calls made by SET\_CFG (sensor\_hal.c, streaming.c)\<close>

definition Sensor_StartSampling :: "firmware \<Rightarrow> firmware" where
  "Sensor_StartSampling fw =
     fw\<lparr>sample_ring_head := 0, sample_ring_tail := 0, g_i2c_state := I2C_STATE_IDLE,
        g_sampling_active := True\<rparr>"

definition Sensor_StopSampling :: "firmware \<Rightarrow> firmware" where
  "Sensor_StopSampling fw = fw\<lparr>g_sampling_active := False\<rparr>"

definition Sensor_IsSampling :: "firmware \<Rightarrow> bool" where
  "Sensor_IsSampling fw = g_sampling_active fw"

definition Sensor_SetODR :: "hal_env \<Rightarrow> u32 \<Rightarrow> firmware \<Rightarrow> firmware" where
  "Sensor_SetODR env odr fw =
     (let rate_code =
            (if odr \<ge> 3200 then 0x0F else if odr \<ge> 1600 then 0x0E else if odr \<ge> 800 then 0x0D
             else if odr \<ge> 400 then 0x0C else if odr \<ge> 200 then 0x0B else 0x0A);
          fw1 = fw\<lparr>hal := hal fw @ [BW_RATE_WriteVerify rate_code]\<rparr>
      in if write_verify_ok env then fw1
         else Telemetry_SendERROR ''I2C'' 10 ''set_odr_busy'' fw1)"

definition Sensor_ReconfigureTimer :: "hal_env \<Rightarrow> u32 \<Rightarrow> firmware \<Rightarrow> outcome" where
  "Sensor_ReconfigureTimer env odr0 fw =
     (let odr = (if odr0 = 0 then 1 else odr0);
          period0 = 100000 div odr;
          period = (if period0 < 1 then 1 else period0);
          fw1 = fw\<lparr>tim3_prescaler := 899, tim3_period := period - 1,
                   hal := hal fw @ [TIM3_Base_Stop_IT, TIM3_Base_Init 899 (period - 1)]\<rparr>
      in if tim_base_init_ok env then Returned fw1 else Error_Handler fw1)"

definition Streaming_Reconfigure :: "firmware \<Rightarrow> firmware" where
  "Streaming_Reconfigure fw =
     (if g_stream_enabled fw then
        (let fw1 = (if g_stream_owns_timer fw \<and> op_mode (ctx fw) = OP_MODE_IDLE
                    then Sensor_StopSampling fw else fw)
         in fw1\<lparr>g_stream_enabled := False, g_stream_owns_timer := False,
                g_stream_suspended := True, g_stream_decim := 0\<rparr>)
      else fw)"

definition Streaming_UpdateDivider :: "firmware \<Rightarrow> firmware" where
  "Streaming_UpdateDivider fw =
     (let c = cfg (ctx fw);
          d = (if stream_rate_hz c > 0 then odr_hz c div stream_rate_hz c else 1)
      in fw\<lparr>g_stream_div := (if d = 0 then 1 else d)\<rparr>)"

subsection \<open>Command handlers (cmd\_handler.c)\<close>

text \<open>
  \<^verbatim>\<open>cmd_exact\<close>: the line starts with the verb, and the next character is the end of the
  line, a space or a comma.
\<close>

definition cmd_exact :: "string \<Rightarrow> string \<Rightarrow> bool" where
  "cmd_exact line cmd =
     (starts_with line cmd \<and>
      (let c = peek (drop (length cmd) line) in c = CHR 0x00 \<or> c = CHR '' '' \<or> c = CHR '',''))"

text \<open>
  The recurring \<^verbatim>\<open>(q = strstr(p, key)) && api_parse_u32(q + strlen(key), &tmp)\<close>: the
  parsed value where the key is found and its value parses, the old value otherwise.
\<close>

definition u32_field :: "string \<Rightarrow> string \<Rightarrow> u32 \<Rightarrow> u32" where
  "u32_field line key old =
     (case strstr line key of
        None \<Rightarrow> old
      | Some q \<Rightarrow> (case api_parse_u32 (drop (length key) q) of None \<Rightarrow> old | Some v \<Rightarrow> v))"

definition fixed3_field :: "string \<Rightarrow> string \<Rightarrow> c_float \<Rightarrow> c_float" where
  "fixed3_field line key old =
     (case strstr line key of
        None \<Rightarrow> old
      | Some q \<Rightarrow>
          (case api_parse_float_fixed3 (drop (length key) q) of None \<Rightarrow> old | Some v \<Rightarrow> v))"

definition Parse_SetCfg :: "hal_env \<Rightarrow> string \<Rightarrow> firmware \<Rightarrow> outcome" where
  "Parse_SetCfg env line fw =
     (let c = cfg (ctx fw);
          req_odr_hz = u32_field line ''odr_hz='' (odr_hz c);
          new_burst_ms = u32_field line ''burst_ms='' (burst_ms c);
          new_hb_ms = u32_field line ''hb_ms='' (hb_ms c);
          new_stream_rate = u32_field line ''stream_rate_hz='' (stream_rate_hz c);
          eff_odr = Sensor_SnapODR req_odr_hz
      in if new_burst_ms = 0 \<or> new_burst_ms > 600000 then
           Returned (Telemetry_SendNACK CMD_SET_CFG ''param_range'' 102 fw)
         else if new_hb_ms > 0 \<and> new_hb_ms < 100 then
           Returned (Telemetry_SendNACK CMD_SET_CFG ''param_range'' 102 fw)
         else if new_stream_rate > eff_odr then
           Returned (Telemetry_SendNACK CMD_SET_CFG ''param_range'' 102 fw)
         else if new_stream_rate > 0 \<and> eff_odr mod new_stream_rate \<noteq> 0 then
           Returned (Telemetry_SendNACK CMD_SET_CFG ''param_range'' 102 fw)
         else
           (let old_odr = odr_hz c;
                fw1 = fw\<lparr>ctx := (ctx fw)\<lparr>cfg :=
                        \<lparr>hb_ms = new_hb_ms, burst_ms = new_burst_ms, odr_hz = eff_odr,
                         stream_rate_hz = new_stream_rate\<rparr>\<rparr>\<rparr>;
                finish = (\<lambda>f. Returned (Telemetry_SendACK CMD_SET_CFG (Streaming_UpdateDivider f)))
            in if old_odr \<noteq> eff_odr then
                 (let was_sampling = Sensor_IsSampling fw1;
                      fw2 = (if was_sampling then Sensor_StopSampling fw1 else fw1);
                      fw3 = Sensor_SetODR env eff_odr fw2
                  in case Sensor_ReconfigureTimer env eff_odr fw3 of
                       Returned fw4 \<Rightarrow>
                         finish (Streaming_Reconfigure
                                   (if was_sampling then Sensor_StartSampling fw4 else fw4))
                     | other \<Rightarrow> other)
               else finish fw1))"

definition Parse_SetTrg :: "string \<Rightarrow> firmware \<Rightarrow> firmware" where
  "Parse_SetTrg line fw =
     (let old = trigger_settings (ctx fw);
          ns = \<lparr>k_mult = fixed3_field line ''k_mult='' (k_mult old),
                win_ms = u32_field line ''win_ms='' (win_ms old),
                hold_ms = u32_field line ''hold_ms='' (hold_ms old)\<rparr>;
          valid = (hold_ms ns \<ge> 100 \<and> hold_ms ns \<le> 10000)
      in if \<not> valid then Telemetry_SendNACK CMD_SET_TRG ''param_range'' 102 fw
         else Telemetry_SendACK CMD_SET_TRG (fw\<lparr>ctx := (ctx fw)\<lparr>trigger_settings := ns\<rparr>\<rparr>))"

definition set_hb_ms :: "u32 \<Rightarrow> firmware \<Rightarrow> firmware" where
  "set_hb_ms v fw = fw\<lparr>ctx := (ctx fw)\<lparr>cfg := (cfg (ctx fw))\<lparr>hb_ms := v\<rparr>\<rparr>\<rparr>"

definition Parse_HB :: "string \<Rightarrow> firmware \<Rightarrow> firmware" where
  "Parse_HB line fw =
     (if strstr line ''OFF'' \<noteq> None then Telemetry_SendACK CMD_HB (set_hb_ms 0 fw)
      else if strstr line ''ON'' \<noteq> None then
        Telemetry_SendACK CMD_HB (if hb_ms (cfg (ctx fw)) = 0 then set_hb_ms 1000 fw else fw)
      else
        (case strstr line ''ms='' of
           None \<Rightarrow> Telemetry_SendNACK CMD_HB ''bad_arg'' 101 fw
         | Some p \<Rightarrow>
             (case api_parse_u32 (drop 3 p) of
                None \<Rightarrow> Telemetry_SendNACK CMD_HB ''bad_arg'' 101 fw
              | Some v \<Rightarrow>
                  Telemetry_SendACK CMD_HB
                    (set_hb_ms (if v > 0 \<and> v < 100 then 100 else v) fw))))"

text \<open>The \<^verbatim>\<open>STOP\<close> branch of \<^verbatim>\<open>process_command\<close>.\<close>

definition handle_stop :: "string \<Rightarrow> firmware \<Rightarrow> firmware" where
  "handle_stop line fw =
     (let force = (strstr line '',FORCE'' \<noteq> None)
      in if op_mode (ctx fw) = OP_MODE_ARMED \<and> trg_state (ctx fw) = TRG_STATE_ARMED \<and> \<not> force
         then Telemetry_SendNACK CMD_STOP ''blocked_while_armed'' 201 fw
         else fw\<lparr>ctx := (ctx fw)\<lparr>stop_flag := True\<rparr>\<rparr>)"

text \<open>
  The verbs of the \<^verbatim>\<open>else if (cmd_exact(line, ...))\<close> chain of \<^verbatim>\<open>process_command\<close>, in the
  order of the chain; the first verb that matches decides.
\<close>

definition verbs :: "string list" where
  "verbs =
     [''HELLO'', ''GET_STATUS'', ''GET_CFG'', ''SET_CFG'', ''HB'', ''TIME_SYNC'',
      ''STREAM_START'', ''STREAM_STOP'', ''GET_TRG'', ''SET_TRG'', ''MODE'', ''CAL_READY'',
      ''ARM'', ''START_BURST_WEIGHT'', ''START_BURST_DAMPING'', ''GET_PREVIEW'', ''STOP'',
      ''GET_DIAG'', ''REBOOT'', ''ZERO'', ''_TEST_FORCE_TRIGGER'', ''ADXL_ST'', ''DIAG_HW_TEST'']"

definition dispatch :: "string \<Rightarrow> string option" where
  "dispatch line = find (cmd_exact line) verbs"

text \<open>
  \<^verbatim>\<open>BM_HandleHostLine\<close> sees every line first. It returns 0 and changes nothing unless the
  line starts with one of three words; what it does with such a line depends on the burst
  manager and the transport, and is not modelled here.
\<close>

definition host_line_hook :: "string \<Rightarrow> bool" where
  "host_line_hook line =
     (starts_with line ''ACK_BLK'' \<or> starts_with line ''NACK_BLK'' \<or>
      starts_with line ''ACK_COMPLETE'')"

text \<open>
  \<^verbatim>\<open>process_command\<close>. The four verbs below and the unknown verb are modelled; the branches
  of the other verbs are not.
\<close>

definition process_command :: "hal_env \<Rightarrow> string \<Rightarrow> firmware \<Rightarrow> outcome" where
  "process_command env line0 fw =
     (if line0 = [] then Returned fw
      else
        (let line = dropWhile (\<lambda>c. c = CHR '' '') line0
         in if host_line_hook line then NotModelled
            else
              (case dispatch line of
                 None \<Rightarrow> Returned (Telemetry_SendNACK ''UNKNOWN'' ''unknown_command'' 100 fw)
               | Some v \<Rightarrow>
                   if v = CMD_SET_CFG then Parse_SetCfg env line fw
                   else if v = CMD_HB then Returned (Parse_HB line fw)
                   else if v = CMD_SET_TRG then Returned (Parse_SetTrg line fw)
                   else if v = CMD_STOP then Returned (handle_stop line fw)
                   else NotModelled)))"

subsection \<open>What SET\_CFG asks for, and when it is acceptable\<close>

text \<open>
  The values \<^verbatim>\<open>Parse_SetCfg\<close> works with after reading the line: each field is the parsed
  value where its key is present and parses, the configured value otherwise, and the data
  rate is snapped.
\<close>

definition set_cfg_request :: "string \<Rightarrow> RuntimeCfg_t \<Rightarrow> RuntimeCfg_t" where
  "set_cfg_request line c =
     \<lparr>hb_ms = u32_field line ''hb_ms='' (hb_ms c),
      burst_ms = u32_field line ''burst_ms='' (burst_ms c),
      odr_hz = Sensor_SnapODR (u32_field line ''odr_hz='' (odr_hz c)),
      stream_rate_hz = u32_field line ''stream_rate_hz='' (stream_rate_hz c)\<rparr>"

text \<open>
  The condition in the words of the specification, on the numbers the fields denote:
  \<open>burst_ms\<close> in \<open>[1, 600000]\<close>, \<open>hb_ms\<close> zero or at least 100, the stream rate at most the
  data rate and, when it is not zero, a divisor of the data rate.
\<close>

definition cfg_acceptable :: "RuntimeCfg_t \<Rightarrow> bool" where
  "cfg_acceptable c =
     (1 \<le> unat (burst_ms c) \<and> unat (burst_ms c) \<le> 600000 \<and>
      (unat (hb_ms c) = 0 \<or> 100 \<le> unat (hb_ms c)) \<and>
      unat (stream_rate_hz c) \<le> unat (odr_hz c) \<and>
      (unat (stream_rate_hz c) \<noteq> 0 \<longrightarrow> unat (stream_rate_hz c) dvd unat (odr_hz c)))"

text \<open>The lines handed to \<^verbatim>\<open>COMM_Sendf\<close> between two states.\<close>

definition sent_since :: "firmware \<Rightarrow> firmware \<Rightarrow> string list" where
  "sent_since fw fw' = drop (length (tx fw)) (tx fw')"

subsection \<open>A concrete setting\<close>

text \<open>A HAL whose calls all succeed.\<close>

definition hal_all_ok :: hal_env where
  "hal_all_ok = \<lparr>write_verify_ok = True, tim_base_init_ok = True\<rparr>"

subsection \<open>The operating mode and the trigger state\<close>

text \<open>
  Three variables decide what \<^verbatim>\<open>STOP\<close> does: \<^verbatim>\<open>ctx->op_mode\<close>, \<^verbatim>\<open>ctx->trg_state\<close> and,
  since the burst manager copies it back into the operating mode, the static
  \<^verbatim>\<open>g_mode_before_burst\<close>.
\<close>

type_synonym modes = "OpMode_t \<times> TrgState_t \<times> OpMode_t"

definition modes_of :: "firmware \<Rightarrow> modes" where
  "modes_of fw = (op_mode (ctx fw), trg_state (ctx fw), g_mode_before_burst fw)"

text \<open>
  The operating mode is written by \<^verbatim>\<open>AppContext_Init\<close> and \<^verbatim>\<open>AppContext_SetOpMode\<close> only,
  the trigger state by \<^verbatim>\<open>AppContext_Init\<close>, \<^verbatim>\<open>Trigger_Pump\<close> and the \<^verbatim>\<open>ARM\<close> branch of
  \<^verbatim>\<open>process_command\<close>, \<^verbatim>\<open>g_mode_before_burst\<close> by \<^verbatim>\<open>BurstManager_Reset\<close> and
  \<^verbatim>\<open>BurstManager_Configure\<close>. All of them run from \<^verbatim>\<open>main\<close>: \<^verbatim>\<open>process_command\<close> under
  \<^verbatim>\<open>CmdHandler_ProcessInput\<close>, the two pumps and \<^verbatim>\<open>CmdHandler_HandleStop\<close> in the main loop,
  and none in an interrupt handler. The paths on which one of the three variables is
  written are these, each up to the return of the function it lies in:

  \<^item> \<open>Main_Idle\<close>: main.c:98, \<^verbatim>\<open>AppContext_SetOpMode(OP_MODE_IDLE)\<close> before the main loop;
  \<^item> \<open>Cmd_Hello\<close>: cmd\_handler.c:131, the \<^verbatim>\<open>HELLO\<close> branch;
  \<^item> \<open>Cmd_Arm\<close>: cmd\_handler.c:156 and 170-171, the \<^verbatim>\<open>ARM\<close> branch in the mode
    \<^verbatim>\<open>WAIT_ARM\<close>;
  \<^item> \<open>Cmd_Start_Burst\<close>: cmd\_handler.c:179 and 184, 383-384 and 401-402, with
    \<^verbatim>\<open>BurstManager_Configure\<close> (burst\_mgr.c:226);
  \<^item> \<open>Cmd_Mode_Trigger_On\<close>: cmd\_handler.c:408 and 430;
  \<^item> \<open>Cmd_Mode_Trigger_Off\<close>: cmd\_handler.c:434 and 438;
  \<^item> \<open>Cmd_Cal_Ready\<close>: cmd\_handler.c:445 and 458;
  \<^item> \<open>Stop_In_Burst\<close>: cmd\_handler.c:68 and 76-82, \<^verbatim>\<open>CmdHandler_HandleStop\<close> during a burst
    with no block transfer active;
  \<^item> \<open>Stop_Elsewhere\<close>: cmd\_handler.c:84 and 93-97, \<^verbatim>\<open>CmdHandler_HandleStop\<close> otherwise;
  \<^item> \<open>Pump_Trigger_Zero\<close>: trigger\_logic.c:80-83, with \<^verbatim>\<open>Trigger_Zero\<close> (line 65);
  \<^item> \<open>Pump_Holdoff_Over\<close>: trigger\_logic.c:89-92;
  \<^item> \<open>Pump_Trigger_Fired\<close>: trigger\_logic.c:97 and then 106-118 or 131-145, with
    \<^verbatim>\<open>BurstManager_Start\<close> (burst\_mgr.c:243);
  \<^item> \<open>Pump_Burst_Stalled\<close>: burst\_mgr.c:296-297;
  \<^item> \<open>Pump_Burst_Weight_Done\<close>: burst\_mgr.c:394-395, in \<^verbatim>\<open>ProcessAndTransmitBurstData\<close>;
  \<^item> \<open>Pump_Burst_Sending\<close>: burst\_mgr.c:408, in \<^verbatim>\<open>ProcessAndTransmitBurstData\<close>;
  \<^item> \<open>Pump_Burst_Sent\<close>: burst\_mgr.c:322-327;
  \<^item> \<open>Pump_Countdown_Start\<close>: burst\_mgr.c:346, with \<^verbatim>\<open>BurstManager_Start\<close>;
  \<^item> \<open>Pump_Countdown_Idle\<close>: burst\_mgr.c:348;
  \<^item> \<open>Pump_Abort_Done\<close>: burst\_mgr.c:356-362.

  A \<^verbatim>\<open>bool\<close> argument is the outcome of the test \<^verbatim>\<open>g_current_kind == KIND_DAMP_TRG\<close> on that
  path, which is left open.
\<close>

datatype mode_write =
    Main_Idle
  | Cmd_Hello
  | Cmd_Arm
  | Cmd_Start_Burst
  | Cmd_Mode_Trigger_On
  | Cmd_Mode_Trigger_Off
  | Cmd_Cal_Ready
  | Stop_In_Burst bool
  | Stop_Elsewhere
  | Pump_Trigger_Zero
  | Pump_Holdoff_Over
  | Pump_Trigger_Fired
  | Pump_Burst_Stalled
  | Pump_Burst_Weight_Done
  | Pump_Burst_Sending
  | Pump_Burst_Sent bool
  | Pump_Countdown_Start
  | Pump_Countdown_Idle
  | Pump_Abort_Done bool

text \<open>
  What a path does to the three variables: \<open>None\<close> where a test of the source on the
  three variables keeps the path from being taken, the new values otherwise. Tests on
  anything else (the line received, the countdown, the samples, the clock, the transport,
  \<^verbatim>\<open>stop_flag\<close>, \<^verbatim>\<open>burst_abort_pending\<close>) are left open, so that a path counts as possible
  whenever the three variables allow it. \<^verbatim>\<open>BurstManager_Reset\<close> sets \<^verbatim>\<open>g_mode_before_burst\<close>
  to \<^verbatim>\<open>OP_MODE_IDLE\<close>, and \<^verbatim>\<open>AppContext_SetOpMode\<close> stores the new mode (it returns early when
  the mode is that one already).
\<close>

fun mode_write_at :: "mode_write \<Rightarrow> modes \<Rightarrow> modes option" where
  "mode_write_at Main_Idle (op, trg, before) = Some (OP_MODE_IDLE, trg, before)"
| "mode_write_at Cmd_Hello (op, trg, before) = Some (OP_MODE_IDLE, trg, before)"
| "mode_write_at Cmd_Arm (op, trg, before) =
     (if op = OP_MODE_WAIT_ARM then Some (OP_MODE_ARMED, TRG_STATE_ARMED, before) else None)"
| "mode_write_at Cmd_Start_Burst (op, trg, before) =
     (if op = OP_MODE_IDLE then Some (OP_MODE_COUNTDOWN, trg, op) else None)"
| "mode_write_at Cmd_Mode_Trigger_On (op, trg, before) =
     (if op \<noteq> OP_MODE_IDLE then None else Some (OP_MODE_WAIT_CAL_ZERO, trg, before))"
| "mode_write_at Cmd_Mode_Trigger_Off (op, trg, before) = Some (OP_MODE_IDLE, trg, OP_MODE_IDLE)"
| "mode_write_at Cmd_Cal_Ready (op, trg, before) =
     (if op \<noteq> OP_MODE_WAIT_CAL_ZERO then None else Some (OP_MODE_TRG_CAL_ZERO, trg, before))"
| "mode_write_at (Stop_In_Burst damp_trg) (op, trg, before) =
     (if op = OP_MODE_BURST \<or> op = OP_MODE_BURST_SENDING then
        Some (if damp_trg then OP_MODE_WAIT_ARM else OP_MODE_IDLE, trg, OP_MODE_IDLE)
      else None)"
| "mode_write_at Stop_Elsewhere (op, trg, before) =
     (if op = OP_MODE_BURST \<or> op = OP_MODE_BURST_SENDING then None
      else Some (if op = OP_MODE_ARMED then OP_MODE_WAIT_ARM else OP_MODE_IDLE, trg,
                 OP_MODE_IDLE))"
| "mode_write_at Pump_Trigger_Zero (op, trg, before) =
     (if op = OP_MODE_TRG_CAL_ZERO then Some (OP_MODE_WAIT_ARM, trg, before) else None)"
| "mode_write_at Pump_Holdoff_Over (op, trg, before) =
     (if op \<noteq> OP_MODE_TRG_CAL_ZERO \<and> trg = TRG_STATE_IN_HOLDOFF
      then Some (op, TRG_STATE_ARMED, before) else None)"
| "mode_write_at Pump_Trigger_Fired (op, trg, before) =
     (if op \<noteq> OP_MODE_TRG_CAL_ZERO \<and> trg = TRG_STATE_ARMED
      then Some (OP_MODE_BURST, TRG_STATE_IN_HOLDOFF, before) else None)"
| "mode_write_at Pump_Burst_Stalled (op, trg, before) =
     (if op = OP_MODE_BURST then Some (OP_MODE_IDLE, trg, OP_MODE_IDLE) else None)"
| "mode_write_at Pump_Burst_Weight_Done (op, trg, before) =
     (if op = OP_MODE_BURST then
        Some (if before \<noteq> OP_MODE_IDLE then before else OP_MODE_IDLE, trg, OP_MODE_IDLE)
      else None)"
| "mode_write_at Pump_Burst_Sending (op, trg, before) =
     (if op = OP_MODE_BURST then Some (OP_MODE_BURST_SENDING, trg, before) else None)"
| "mode_write_at (Pump_Burst_Sent damp_trg) (op, trg, before) =
     (if op = OP_MODE_BURST_SENDING then
        (let before' = OP_MODE_IDLE;
             next_mode = (if damp_trg then OP_MODE_WAIT_ARM else before')
         in Some (if next_mode = OP_MODE_IDLE \<and> before' \<noteq> OP_MODE_IDLE then before'
                  else if next_mode \<noteq> OP_MODE_WAIT_ARM then OP_MODE_IDLE
                  else next_mode, trg, before'))
      else None)"
| "mode_write_at Pump_Countdown_Start (op, trg, before) =
     (if op = OP_MODE_COUNTDOWN then Some (OP_MODE_BURST, trg, before) else None)"
| "mode_write_at Pump_Countdown_Idle (op, trg, before) =
     (if op = OP_MODE_COUNTDOWN then Some (OP_MODE_IDLE, trg, before) else None)"
| "mode_write_at (Pump_Abort_Done damp_trg) (op, trg, before) =
     (let before' = OP_MODE_IDLE;
          next_mode = (if damp_trg then OP_MODE_WAIT_ARM else before')
      in Some (if next_mode \<noteq> OP_MODE_WAIT_ARM then OP_MODE_IDLE else next_mode, trg,
               before'))"

text \<open>The three variables after a sequence of such paths, where each can be taken.\<close>

fun modes_after :: "modes \<Rightarrow> mode_write list \<Rightarrow> modes option" where
  "modes_after m [] = Some m"
| "modes_after m (w # ws) =
     (case mode_write_at w m of None \<Rightarrow> None | Some m' \<Rightarrow> modes_after m' ws)"

text \<open>
  A state is reachable by a sequence of paths when its three variables are what the
  sequence leaves, starting from \<^verbatim>\<open>AppContext_Init\<close> and the initialiser of
  \<^verbatim>\<open>g_mode_before_burst\<close>. Nothing is asked of the rest of the state, so every state in
  which the running firmware calls \<^verbatim>\<open>process_command\<close> is reachable in this sense, by the
  paths taken since the last reset (\<^verbatim>\<open>REBOOT\<close> ends in \<^verbatim>\<open>HAL_NVIC_SystemReset\<close>, after which
  the variables have their initial values again).
\<close>

definition reachable_by :: "mode_write list \<Rightarrow> firmware \<Rightarrow> bool" where
  "reachable_by ws fw = (modes_after (modes_of firmware_boot) ws = Some (modes_of fw))"

text \<open>
  The property of the three variables that every path keeps: \<^verbatim>\<open>g_mode_before_burst\<close> is
  \<^verbatim>\<open>OP_MODE_IDLE\<close>, and the trigger state is Armed whenever the operating mode is.
\<close>

definition modes_consistent :: "modes \<Rightarrow> bool" where
  "modes_consistent m =
     (case m of (op, trg, before) \<Rightarrow>
        before = OP_MODE_IDLE \<and> (op = OP_MODE_ARMED \<longrightarrow> trg = TRG_STATE_ARMED))"

text \<open>The booted firmware after the guided calibration and \<^verbatim>\<open>ARM\<close>, and the paths to it.\<close>

definition armed_firmware :: firmware where
  "armed_firmware =
     firmware_boot\<lparr>ctx := AppContext_Init\<lparr>op_mode := OP_MODE_ARMED,
                                            trg_state := TRG_STATE_ARMED\<rparr>\<rparr>"

definition arming_sequence :: "mode_write list" where
  "arming_sequence =
     [Main_Idle, Cmd_Mode_Trigger_On, Cmd_Cal_Ready, Pump_Trigger_Zero, Cmd_Arm]"

text \<open>The same, then a triggered burst that is sent, and \<^verbatim>\<open>ARM\<close> once more.\<close>

definition rearming_sequence :: "mode_write list" where
  "rearming_sequence =
     arming_sequence @
     [Pump_Trigger_Fired, Pump_Burst_Sending, Pump_Burst_Sent True, Pump_Holdoff_Over, Cmd_Arm]"

section \<open>Line assembler (comm.c)\<close>

definition LINE_BUFFER_SIZE :: nat where
  "LINE_BUFFER_SIZE = PROTO_MAX_LINE"

definition COMM_MAX_LINES_PER_CALL :: nat where
  "COMM_MAX_LINES_PER_CALL = 8"

definition COMM_MAX_MS_PER_CALL :: u32 where
  "COMM_MAX_MS_PER_CALL = 2"

text \<open>
  The statics of the assembler: the buffer of \<open>LINE_BUFFER_SIZE\<close> characters, the length of
  the line so far and the flag of an over-long line. \<^verbatim>\<open>line_len\<close> is a \<^verbatim>\<open>uint16_t\<close> that
  never exceeds \<open>LINE_BUFFER_SIZE - 1\<close>.
\<close>

record line_asm =
  line_buffer :: "char list"
  line_len :: nat
  line_truncated :: bool

definition COMM_Init :: line_asm where
  "COMM_Init = \<lparr>line_buffer = replicate LINE_BUFFER_SIZE (CHR 0x00), line_len = 0,
                 line_truncated = False\<rparr>"

text \<open>
  What the assembler does to the rest of the firmware: it calls \<^verbatim>\<open>process_command\<close> on the
  C string in the buffer, or hands a line to \<^verbatim>\<open>COMM_Sendf\<close>.
\<close>

datatype comm_event = Dispatched string | Sent string

text \<open>The C string that starts at the beginning of a buffer.\<close>

definition c_string :: "char list \<Rightarrow> string" where
  "c_string buf = takeWhile (\<lambda>c. c \<noteq> CHR 0x00) buf"

definition NACK_LINE_TOO_LONG :: string where
  "NACK_LINE_TOO_LONG =
     ''NACK,SUBJECT=UNKNOWN,reason=line_too_long,code='' @ fmt_u32 300 @ PROTO_EOL"

definition is_eol :: "char \<Rightarrow> bool" where
  "is_eol c = (c = CHR 0x0D \<or> c = CHR 0x0A)"

text \<open>
  The body of the \<^verbatim>\<open>while\<close> loop of \<^verbatim>\<open>COMM_Process\<close> for one byte taken from the RX ring.
  The result also tells whether \<^verbatim>\<open>process_command\<close> was called, which the budgeted
  variant counts.
\<close>

definition comm_byte :: "char \<Rightarrow> line_asm \<Rightarrow> line_asm \<times> comm_event list \<times> bool" where
  "comm_byte c st =
     (if c = CHR 0x0D \<or> c = CHR 0x0A then
        (if line_len st > 0 then
           (let buf = (line_buffer st)[line_len st := CHR 0x00]
            in (st\<lparr>line_buffer := buf, line_len := 0, line_truncated := False\<rparr>,
                [Dispatched (c_string buf)], True))
         else if line_truncated st then
           (st\<lparr>line_len := 0, line_truncated := False\<rparr>, [Sent NACK_LINE_TOO_LONG], False)
         else (st\<lparr>line_len := 0, line_truncated := False\<rparr>, [], False))
      else if \<not> line_truncated st then
        (if line_len st < LINE_BUFFER_SIZE - 1 then
           (st\<lparr>line_buffer := (line_buffer st)[line_len st := c], line_len := line_len st + 1\<rparr>,
            [], False)
         else (st\<lparr>line_truncated := True, line_len := 0\<rparr>, [], False))
      else (st, [], False))"

text \<open>
  \<^verbatim>\<open>COMM_Process\<close>: the loop runs until the RX ring is empty. The ring is a FIFO of bytes;
  the argument lists the bytes waiting in it, oldest first.
\<close>

fun COMM_Process :: "char list \<Rightarrow> line_asm \<Rightarrow> line_asm \<times> comm_event list" where
  "COMM_Process [] st = (st, [])"
| "COMM_Process (c # cs) st =
     (let (st1, ev1, called) = comm_byte c st;
          (st2, ev2) = COMM_Process cs st1
      in (st2, ev1 @ ev2))"

text \<open>
  \<^verbatim>\<open>COMM_Process_Budgeted\<close>: the same loop, left after 8 dispatched lines or when 2 ms have
  passed. \<open>tick k\<close> is what \<^verbatim>\<open>HAL_GetTick\<close> returns after the \<open>k\<close>-th byte of this call,
  \<open>start_ms\<close> what it returned on entry. The result also holds the bytes left in the ring.
\<close>

fun budgeted_loop ::
  "(nat \<Rightarrow> u32) \<Rightarrow> u32 \<Rightarrow> nat \<Rightarrow> nat \<Rightarrow> char list \<Rightarrow> line_asm
     \<Rightarrow> char list \<times> line_asm \<times> comm_event list" where
  "budgeted_loop tick start_ms k lines_processed [] st = ([], st, [])"
| "budgeted_loop tick start_ms k lines_processed (c # cs) st =
     (let (st1, ev1, called) = comm_byte c st;
          lines = (if called then lines_processed + 1 else lines_processed)
      in if lines \<ge> COMM_MAX_LINES_PER_CALL then (cs, st1, ev1)
         else if tick k - start_ms \<ge> COMM_MAX_MS_PER_CALL then (cs, st1, ev1)
         else (let (left, st2, ev2) = budgeted_loop tick start_ms (k + 1) lines cs st1
               in (left, st2, ev1 @ ev2)))"

definition COMM_Process_Budgeted ::
  "(nat \<Rightarrow> u32) \<Rightarrow> u32 \<Rightarrow> char list \<Rightarrow> line_asm \<Rightarrow> char list \<times> line_asm \<times> comm_event list" where
  "COMM_Process_Budgeted tick start_ms pending st = budgeted_loop tick start_ms 0 0 pending st"

section \<open>BLOCKS transport (transport\_blocks.c)\<close>

definition TB_MAX_INFLIGHT :: nat where "TB_MAX_INFLIGHT = 8"
definition TB_MAX_QUEUE :: nat where "TB_MAX_QUEUE = 16"
definition PROTO_BLOCK_TIMEOUT_MS :: u32 where "PROTO_BLOCK_TIMEOUT_MS = 1000"
definition PROTO_MAX_RETRIES :: u8 where "PROTO_MAX_RETRIES = 3"
definition PROTO_BLOCK_LINES_DEFAULT :: u16 where "PROTO_BLOCK_LINES_DEFAULT = 128"

text \<open>
  A line generator \<^verbatim>\<open>TB_GenLineFn\<close> together with its \<^verbatim>\<open>user\<close> pointer: for a line index
  it gives the bytes of the line, or \<open>None\<close> where the C function returns a value
  \<open>\<le> 0\<close>. A generator that is \<open>None\<close> is the NULL function pointer.
\<close>

type_synonym line_gen = "u16 \<Rightarrow> u8 list option"

record TB_BlockGen =
  bg_gen :: "line_gen option"
  bg_lines :: u16

record tb_entry_t =
  e_gen :: "line_gen option"
  e_lines :: u16
  e_blk :: u16
  e_crc16 :: u16
  e_retries :: u8
  e_sent :: bool
  e_t_last_tx_ms :: u32
  e_inflight :: bool
  e_done :: bool

text \<open>What \<^verbatim>\<open>memset(e, 0, sizeof(*e))\<close> leaves.\<close>

definition zero_entry :: tb_entry_t where
  "zero_entry =
     \<lparr>e_gen = None, e_lines = 0, e_blk = 0, e_crc16 = 0, e_retries = 0, e_sent = False,
      e_t_last_tx_ms = 0, e_inflight = False, e_done = False\<rparr>"

text \<open>What the transport writes with the blocking UART writer, and what it tells the burst
  manager through \<^verbatim>\<open>BM_EndAborted\<close>.\<close>

datatype tb_out =
    BLOCK_HEADER u32 u16 u16 u16
  | DATA "u8 list"
  | BLOCK_END u16 u16
  | BM_EndAborted u32

text \<open>
  The static \<^verbatim>\<open>g_tb\<close>. The entries of \<^verbatim>\<open>inflight\<close> are pointers into \<^verbatim>\<open>queue\<close>; they are
  modelled by the index of the slot they point to, so that a write through an inflight
  pointer and a later reuse of the slot by \<^verbatim>\<open>_queue_push\<close> meet in the same entry. The
  counters are \<^verbatim>\<open>uint8_t\<close>; every increment is guarded by a bound far below 255 and every
  decrement by a test for a positive value, so they are natural numbers here. Slots of
  \<^verbatim>\<open>inflight\<close> at or above \<^verbatim>\<open>inflight_count\<close> are never read.
\<close>

record tb_state =
  window :: u16
  blk_lines :: u16
  max_retries :: u8
  tb_burst_id :: u32
  next_blk :: u16
  burst_active :: bool
  queue :: "tb_entry_t list"
  q_head :: nat
  q_tail :: nat
  q_count :: nat
  inflight :: "nat list"
  inflight_count :: nat
  tb_wire :: "tb_out list"

text \<open>The zero-initialised static, before any call.\<close>

definition tb_zero :: tb_state where
  "tb_zero =
     \<lparr>window = 0, blk_lines = 0, max_retries = 0, tb_burst_id = 0, next_blk = 0,
      burst_active = False, queue = replicate TB_MAX_QUEUE zero_entry, q_head = 0, q_tail = 0,
      q_count = 0, inflight = replicate TB_MAX_INFLIGHT 0, inflight_count = 0, tb_wire = []\<rparr>"

definition queue_full :: "tb_state \<Rightarrow> bool" where
  "queue_full s = (q_count s \<ge> TB_MAX_QUEUE)"

definition queue_empty :: "tb_state \<Rightarrow> bool" where
  "queue_empty s = (q_count s = 0)"

text \<open>\<^verbatim>\<open>_queue_push\<close> and \<^verbatim>\<open>_queue_pop\<close> return the slot, or \<open>None\<close> for NULL.\<close>

definition queue_push :: "tb_state \<Rightarrow> nat option \<times> tb_state" where
  "queue_push s =
     (if queue_full s then (None, s)
      else (Some (q_tail s),
            s\<lparr>queue := (queue s)[q_tail s := zero_entry],
              q_tail := (q_tail s + 1) mod TB_MAX_QUEUE,
              q_count := q_count s + 1\<rparr>))"

definition queue_pop :: "tb_state \<Rightarrow> nat option \<times> tb_state" where
  "queue_pop s =
     (if queue_empty s then (None, s)
      else (Some (q_head s),
            s\<lparr>q_head := (q_head s + 1) mod TB_MAX_QUEUE, q_count := q_count s - 1\<rparr>))"

text \<open>A write to a field of the entry a pointer points to.\<close>

definition entry_upd :: "nat \<Rightarrow> (tb_entry_t \<Rightarrow> tb_entry_t) \<Rightarrow> tb_state \<Rightarrow> tb_state" where
  "entry_upd e f s = s\<lparr>queue := (queue s)[e := f (queue s ! e)]\<rparr>"

definition inflight_add :: "nat \<Rightarrow> tb_state \<Rightarrow> tb_state" where
  "inflight_add e s =
     (if inflight_count s < TB_MAX_INFLIGHT then
        entry_upd e (\<lambda>x. x\<lparr>e_inflight := True\<rparr>)
          (s\<lparr>inflight := (inflight s)[inflight_count s := e],
             inflight_count := inflight_count s + 1\<rparr>)
      else s)"

text \<open>The copy loop of \<^verbatim>\<open>_inflight_remove_index\<close>, from index \<open>i\<close> up to \<open>n\<close>.\<close>

function shift_down :: "nat \<Rightarrow> nat \<Rightarrow> nat list \<Rightarrow> nat list" where
  "shift_down i n xs = (if i < n then shift_down (i + 1) n (xs[i - 1 := xs ! i]) else xs)"
  by pat_completeness auto
termination
  by (relation "measure (\<lambda>(i, n, xs). n - i)") auto

declare shift_down.simps [simp del]

definition inflight_remove_index :: "nat \<Rightarrow> tb_state \<Rightarrow> tb_state" where
  "inflight_remove_index idx s =
     (if idx \<ge> inflight_count s then s
      else s\<lparr>inflight := shift_down (idx + 1) (inflight_count s) (inflight s),
             inflight_count := inflight_count s - 1\<rparr>)"

text \<open>\<^verbatim>\<open>_inflight_find_blk\<close>: the first index whose entry has the block number and is inflight.\<close>

definition inflight_find_blk :: "u16 \<Rightarrow> tb_state \<Rightarrow> nat option" where
  "inflight_find_blk blk s =
     find (\<lambda>i. e_blk (queue s ! (inflight s ! i)) = blk \<and> e_inflight (queue s ! (inflight s ! i)))
       [0..<inflight_count s]"

text \<open>The emptying loop of \<^verbatim>\<open>_abort_all\<close>.\<close>

function drain_queue :: "tb_state \<Rightarrow> tb_state" where
  "drain_queue s = (if \<not> queue_empty s then drain_queue (snd (queue_pop s)) else s)"
  by pat_completeness auto
termination
  by (relation "measure q_count") (auto simp add: queue_pop_def queue_empty_def)

declare drain_queue.simps [simp del]

definition abort_all :: "tb_state \<Rightarrow> tb_state" where
  "abort_all s =
     (let s1 = fold (\<lambda>i. entry_upd (inflight s ! i) (\<lambda>x. x\<lparr>e_inflight := False, e_done := True\<rparr>))
                 [0..<inflight_count s] s;
          s2 = drain_queue (s1\<lparr>inflight_count := 0\<rparr>)
      in s2\<lparr>burst_active := False\<rparr>)"

definition TB_Init :: "u16 \<Rightarrow> u16 \<Rightarrow> u8 \<Rightarrow> tb_state \<Rightarrow> tb_state" where
  "TB_Init w bl mr s =
     s\<lparr>window := (if w = 0 \<or> w > of_nat TB_MAX_INFLIGHT then of_nat TB_MAX_INFLIGHT else w),
       blk_lines := (if bl = 0 then PROTO_BLOCK_LINES_DEFAULT else bl),
       max_retries := (if mr = 0 then PROTO_MAX_RETRIES else mr),
       tb_burst_id := 0, next_blk := 0, burst_active := False,
       q_head := 0, q_tail := 0, q_count := 0, inflight_count := 0\<rparr>"

definition TB_BeginBurst :: "u32 \<Rightarrow> tb_state \<Rightarrow> tb_state" where
  "TB_BeginBurst bid s =
     s\<lparr>tb_burst_id := bid, next_blk := 1, burst_active := True,
       q_head := 0, q_tail := 0, q_count := 0, inflight_count := 0\<rparr>"

definition TB_EndBurst :: "tb_state \<Rightarrow> tb_state" where
  "TB_EndBurst s = s\<lparr>burst_active := False\<rparr>"

text \<open>\<^verbatim>\<open>_compute_crc16\<close>: 0 as soon as the generator fails on a line.\<close>

fun crc_lines :: "line_gen \<Rightarrow> u16 list \<Rightarrow> proto_crc16_t \<Rightarrow> u16" where
  "crc_lines g [] c = proto_crc16_final c"
| "crc_lines g (i # is) c =
     (case g i of None \<Rightarrow> 0 | Some l \<Rightarrow> crc_lines g is (proto_crc16_update c l))"

definition line_indices :: "u16 \<Rightarrow> u16 list" where
  "line_indices n = map of_nat [0..<unat n]"

definition compute_crc16 :: "line_gen option \<Rightarrow> u16 \<Rightarrow> u16" where
  "compute_crc16 g n =
     (case g of None \<Rightarrow> 0 | Some f \<Rightarrow> crc_lines f (line_indices n) proto_crc16_init)"

text \<open>
  \<^verbatim>\<open>_send_block\<close>. \<open>now\<close> is what \<^verbatim>\<open>HAL_GetTick\<close> returns once the block is written.
\<close>

definition send_block :: "u32 \<Rightarrow> nat \<Rightarrow> tb_state \<Rightarrow> tb_state" where
  "send_block now e s =
     (let x = queue s ! e;
          body = (case e_gen x of
                    None \<Rightarrow> []
                  | Some g \<Rightarrow> concat (map (\<lambda>i. case g i of None \<Rightarrow> [] | Some l \<Rightarrow> [DATA l])
                                        (line_indices (e_lines x))));
          s1 = s\<lparr>tb_wire := tb_wire s @
                   [BLOCK_HEADER (tb_burst_id s) (e_blk x) (e_lines x) (e_crc16 x)] @ body @
                   [BLOCK_END (e_blk x) (e_crc16 x)]\<rparr>
      in entry_upd e (\<lambda>x. x\<lparr>e_t_last_tx_ms := now, e_sent := True, e_inflight := True\<rparr>) s1)"

text \<open>\<^verbatim>\<open>TB_EnqueueBlock\<close>: the state and the returned \<^verbatim>\<open>int\<close>; \<open>None\<close> is the NULL block.\<close>

definition TB_EnqueueBlock :: "TB_BlockGen option \<Rightarrow> tb_state \<Rightarrow> bool \<times> tb_state" where
  "TB_EnqueueBlock blk s =
     (case blk of
        None \<Rightarrow> (False, s)
      | Some b \<Rightarrow>
          if \<not> burst_active s \<or> bg_gen b = None \<or> bg_lines b = 0 \<or> bg_lines b > blk_lines s
          then (False, s)
          else if queue_full s then (False, s)
          else (case queue_push s of
                  (None, s1) \<Rightarrow> (False, s1)
                | (Some e, s1) \<Rightarrow>
                    (True,
                     entry_upd e (\<lambda>x. x\<lparr>e_gen := bg_gen b, e_lines := bg_lines b,
                                          e_blk := next_blk s1,
                                          e_crc16 := compute_crc16 (bg_gen b) (bg_lines b),
                                          e_retries := 0, e_sent := False, e_inflight := False,
                                          e_done := False\<rparr>)
                       (s1\<lparr>next_blk := next_blk s1 + 1\<rparr>))))"

text \<open>The loop of \<^verbatim>\<open>_pump_send\<close> ends: every turn takes a block from the queue.\<close>

lemma q_count_entry_upd [simp]: "q_count (entry_upd e f s) = q_count s"
  by (simp add: entry_upd_def)

lemma q_count_send_block [simp]: "q_count (send_block now e s) = q_count s"
  by (simp add: send_block_def Let_def)

lemma q_count_inflight_add [simp]: "q_count (inflight_add e s) = q_count s"
  by (simp add: inflight_add_def)

lemma q_count_queue_pop:
  "\<not> queue_empty s \<Longrightarrow> queue_pop s = (r, s1) \<Longrightarrow> q_count s1 < q_count s"
  by (auto simp add: queue_pop_def queue_empty_def)

function pump_send :: "u32 \<Rightarrow> tb_state \<Rightarrow> tb_state" where
  "pump_send now s =
     (if inflight_count s < unat (window s) \<and> \<not> queue_empty s then
        (case queue_pop s of
           (Some e, s1) \<Rightarrow> pump_send now (inflight_add e (send_block now e s1))
         | (None, s1) \<Rightarrow> s1)
      else s)"
  by pat_completeness auto
termination
proof (relation "measure (\<lambda>(now, s). q_count s)")
  show "wf (measure (\<lambda>(now, s). q_count s))" by simp
next
  fix now :: u32 and s x1 s1 e
  assume "inflight_count s < unat (window s) \<and> \<not> queue_empty s"
    and "(x1, s1) = queue_pop s" and "x1 = Some e"
  then have "q_count s1 < q_count s" using q_count_queue_pop[of s x1 s1] by simp
  then show "((now, inflight_add e (send_block now e s1)), now, s)
               \<in> measure (\<lambda>(now, s). q_count s)"
    by simp
qed

declare pump_send.simps [simp del]

function pump_timeouts_from :: "u32 \<Rightarrow> nat \<Rightarrow> tb_state \<Rightarrow> tb_state" where
  "pump_timeouts_from now i s =
     (if i < inflight_count s then
        (let e = inflight s ! i; x = queue s ! e
         in if \<not> e_inflight x then pump_timeouts_from now i (inflight_remove_index i s)
            else if now - e_t_last_tx_ms x \<ge> PROTO_BLOCK_TIMEOUT_MS then
              (if e_retries x < max_retries s then
                 pump_timeouts_from now (i + 1)
                   (send_block now e (entry_upd e (\<lambda>x. x\<lparr>e_retries := e_retries x + 1\<rparr>) s))
               else
                 (let s1 = abort_all s
                  in pump_timeouts_from now i (s1\<lparr>tb_wire := tb_wire s1 @ [BM_EndAborted 400]\<rparr>)))
            else pump_timeouts_from now (i + 1) s)
      else s)"
  by pat_completeness auto

text \<open>
  The loop of \<^verbatim>\<open>_pump_timeouts\<close> ends: every turn either moves \<open>i\<close> up or lowers
  \<^verbatim>\<open>inflight_count\<close>.
\<close>

lemma inflight_count_entry_upd [simp]: "inflight_count (entry_upd e f s) = inflight_count s"
  by (simp add: entry_upd_def)

lemma inflight_count_send_block [simp]: "inflight_count (send_block now e s) = inflight_count s"
  by (simp add: send_block_def Let_def)

lemma inflight_count_drain_queue [simp]: "inflight_count (drain_queue s) = inflight_count s"
proof (induction s rule: drain_queue.induct)
  case (1 s)
  show ?case
  proof (cases "queue_empty s")
    case True
    then show ?thesis by (simp add: drain_queue.simps[of s])
  next
    case False
    have "inflight_count (snd (queue_pop s)) = inflight_count s"
      by (simp add: queue_pop_def)
    with False "1.IH" show ?thesis by (simp add: drain_queue.simps[of s])
  qed
qed

lemma inflight_count_fold_entry_upd [simp]:
  "inflight_count (fold (\<lambda>i. entry_upd (g i) f) is s) = inflight_count s"
  by (induction "is" arbitrary: s) simp_all

lemma inflight_count_abort_all [simp]: "inflight_count (abort_all s) = 0"
  by (simp add: abort_all_def Let_def)

termination pump_timeouts_from
  by (relation "measure (\<lambda>(now, i, s). inflight_count s - i)")
     (auto simp add: inflight_remove_index_def)

declare pump_timeouts_from.simps [simp del]

definition pump_timeouts :: "u32 \<Rightarrow> tb_state \<Rightarrow> tb_state" where
  "pump_timeouts now s = pump_timeouts_from now 0 s"

definition TB_Pump :: "u32 \<Rightarrow> tb_state \<Rightarrow> tb_state" where
  "TB_Pump now s = (if \<not> burst_active s then s else pump_timeouts now (pump_send now s))"

definition TB_OnAckBlk :: "u16 \<Rightarrow> tb_state \<Rightarrow> tb_state" where
  "TB_OnAckBlk blk s =
     (case inflight_find_blk blk s of
        None \<Rightarrow> s
      | Some idx \<Rightarrow>
          inflight_remove_index idx
            (entry_upd (inflight s ! idx) (\<lambda>x. x\<lparr>e_done := True, e_inflight := False\<rparr>) s))"

definition TB_OnNackBlk :: "u32 \<Rightarrow> u16 \<Rightarrow> u32 \<Rightarrow> tb_state \<Rightarrow> tb_state" where
  "TB_OnNackBlk now blk code s =
     (case inflight_find_blk blk s of
        None \<Rightarrow> s
      | Some idx \<Rightarrow>
          (let e = inflight s ! idx
           in if e_retries (queue s ! e) < max_retries s then
                send_block now e (entry_upd e (\<lambda>x. x\<lparr>e_retries := e_retries x + 1\<rparr>) s)
              else
                (let s1 = abort_all s
                 in s1\<lparr>tb_wire := tb_wire s1 @ [BM_EndAborted (if code \<noteq> 0 then code else 400)]\<rparr>)))"

text \<open>
  The calls of the transport's interface named by the specification, with their arguments
  (and the tick the call reads, where it reads one), and a run of such calls from the
  zero-initialised static.
\<close>

datatype tb_call =
    Call_TB_Init u16 u16 u8
  | Call_TB_BeginBurst u32
  | Call_TB_EnqueueBlock "TB_BlockGen option"
  | Call_TB_Pump u32
  | Call_TB_OnAckBlk u16
  | Call_TB_OnNackBlk u32 u16 u32
  | Call_TB_EndBurst

fun tb_step :: "tb_call \<Rightarrow> tb_state \<Rightarrow> tb_state" where
  "tb_step (Call_TB_Init w bl mr) s = TB_Init w bl mr s"
| "tb_step (Call_TB_BeginBurst bid) s = TB_BeginBurst bid s"
| "tb_step (Call_TB_EnqueueBlock b) s = snd (TB_EnqueueBlock b s)"
| "tb_step (Call_TB_Pump now) s = TB_Pump now s"
| "tb_step (Call_TB_OnAckBlk blk) s = TB_OnAckBlk blk s"
| "tb_step (Call_TB_OnNackBlk now blk code) s = TB_OnNackBlk now blk code s"
| "tb_step Call_TB_EndBurst s = TB_EndBurst s"

definition tb_run :: "tb_call list \<Rightarrow> tb_state" where
  "tb_run calls = fold tb_step calls tb_zero"

text \<open>The bound of the specification on the number of inflight blocks.\<close>

definition window_respected :: "tb_state \<Rightarrow> bool" where
  "window_respected s =
     (inflight_count s \<le> unat (window s) \<and> inflight_count s \<le> TB_MAX_INFLIGHT)"

section \<open>Median by quickselect (burst\_mgr.c)\<close>

text \<open>
  The array is a list of \<^verbatim>\<open>int16_t\<close> values, which are compared as signed numbers. The
  indices are \<^verbatim>\<open>int\<close> in C. They are natural numbers here: they start from \<open>0\<close>,
  \<open>size - 1\<close> and \<open>size / 2\<close> with \<open>size \<ge> 2\<close>, and the one place where C could go
  below zero, \<^verbatim>\<open>high = i - 1\<close> with \<open>i = 0\<close>, is written out: the loop test \<^verbatim>\<open>low <= high\<close>
  then fails and the function returns \<^verbatim>\<open>INT16_MIN\<close>.
\<close>

definition INT16_MIN :: i16 where
  "INT16_MIN = 0x8000"

definition swap_int16 :: "nat \<Rightarrow> nat \<Rightarrow> i16 list \<Rightarrow> i16 list" where
  "swap_int16 a b arr = arr[a := arr ! b, b := arr ! a]"

text \<open>The \<^verbatim>\<open>for (j = low; j < high; j++)\<close> loop of the partition step, from \<open>j\<close> on.\<close>

function partition_loop :: "i16 \<Rightarrow> nat \<Rightarrow> nat \<Rightarrow> nat \<Rightarrow> i16 list \<Rightarrow> nat \<times> i16 list" where
  "partition_loop pivot j high i arr =
     (if j < high then
        (if sint (arr ! j) < sint pivot
         then partition_loop pivot (j + 1) high (i + 1) (swap_int16 i j arr)
         else partition_loop pivot (j + 1) high i arr)
      else (i, arr))"
  by pat_completeness auto
termination
  by (relation "measure (\<lambda>(pivot, j, high, i, arr). high - j)") auto

declare partition_loop.simps [simp del]

text \<open>The index the partition loop returns stays between its start and \<open>high\<close>.\<close>

lemma partition_loop_index:
  "i \<le> j \<Longrightarrow> j \<le> high \<Longrightarrow>
   i \<le> fst (partition_loop pivot j high i arr) \<and> fst (partition_loop pivot j high i arr) \<le> high"
proof (induction pivot j high i arr rule: partition_loop.induct)
  case (1 pivot j high i arr)
  show ?case
  proof (cases "j < high")
    case False
    then have "partition_loop pivot j high i arr = (i, arr)"
      by (subst partition_loop.simps) simp
    then show ?thesis using "1.prems" by simp
  next
    case True
    show ?thesis
    proof (cases "sint (arr ! j) < sint pivot")
      case lt: True
      have "i + 1 \<le> fst (partition_loop pivot (j + 1) high (i + 1) (swap_int16 i j arr)) \<and>
            fst (partition_loop pivot (j + 1) high (i + 1) (swap_int16 i j arr)) \<le> high"
        using True lt "1.prems" by (intro "1.IH"(1)) simp_all
      then show ?thesis
        using True lt by (simp add: partition_loop.simps[of pivot j high i arr])
    next
      case ge: False
      have "i \<le> fst (partition_loop pivot (j + 1) high i arr) \<and>
            fst (partition_loop pivot (j + 1) high i arr) \<le> high"
        using True ge "1.prems" by (intro "1.IH"(2)) simp_all
      then show ?thesis
        using True ge by (simp add: partition_loop.simps[of pivot j high i arr])
    qed
  qed
qed

text \<open>
  \<^verbatim>\<open>quickselect_int16\<close>, with the array it leaves behind, since \<^verbatim>\<open>calculate_median_int16\<close>
  calls it twice on the same array.
\<close>

function quickselect_int16 :: "i16 list \<Rightarrow> nat \<Rightarrow> nat \<Rightarrow> nat \<Rightarrow> i16 \<times> i16 list" where
  "quickselect_int16 arr low high k =
     (if low \<le> high then
        (if low = high then (arr ! low, arr)
         else
           (let pivot_idx = low + (high - low) div 2;
                pivot = arr ! pivot_idx;
                arr1 = swap_int16 pivot_idx high arr;
                r = partition_loop pivot low high low arr1;
                i = fst r;
                arr3 = swap_int16 i high (snd r)
            in if k = i then (arr3 ! i, arr3)
               else if k < i then
                 (if i = 0 then (INT16_MIN, arr3) else quickselect_int16 arr3 low (i - 1) k)
               else quickselect_int16 arr3 (i + 1) high k))
      else (INT16_MIN, arr))"
  by pat_completeness auto
termination
proof (relation "measure (\<lambda>(arr, low, high, k). Suc high - low)", goal_cases)
  case 1
  show ?case by simp
next
  case (2 arr low high k pivot_idx pivot arr1 r i arr3)
  have "low \<le> fst (partition_loop pivot low high low arr1) \<and>
        fst (partition_loop pivot low high low arr1) \<le> high"
    using 2(1) by (intro partition_loop_index) simp_all
  then have "low \<le> i" "i \<le> high" unfolding 2(7) 2(6) by simp_all
  moreover have "i \<noteq> 0" using 2 by simp
  ultimately have "Suc (i - 1) - low < Suc high - low" by arith
  then show ?case by simp
next
  case (3 arr low high k pivot_idx pivot arr1 r i arr3)
  have "low \<le> fst (partition_loop pivot low high low arr1) \<and>
        fst (partition_loop pivot low high low arr1) \<le> high"
    using 3(1) by (intro partition_loop_index) simp_all
  then have "low \<le> i" "i \<le> high" unfolding 3(7) 3(6) by simp_all
  then have "Suc high - (i + 1) < Suc high - low" by arith
  then show ?case by simp
qed

declare quickselect_int16.simps [simp del]

text \<open>C's integer division, which truncates towards zero.\<close>

definition c_div :: "int \<Rightarrow> int \<Rightarrow> int" where
  "c_div a b = sgn a * sgn b * (\<bar>a\<bar> div \<bar>b\<bar>)"

text \<open>
  \<^verbatim>\<open>calculate_median_int16(data, size)\<close>, with \<open>sz\<close> for \<^verbatim>\<open>size\<close>. The sum of the two middle values is computed in
  \<^verbatim>\<open>int32_t\<close>, where it cannot overflow, and the quotient is cast back to \<^verbatim>\<open>int16_t\<close>.
\<close>

definition calculate_median_int16 :: "i16 list \<Rightarrow> nat \<Rightarrow> i16" where
  "calculate_median_int16 data sz =
     (if sz = 0 then 0
      else if sz = 1 then data ! 0
      else if sz mod 2 = 1 then fst (quickselect_int16 data 0 (sz - 1) (sz div 2))
      else
        (let mid1_idx = sz div 2 - 1;
             mid2_idx = sz div 2;
             r1 = quickselect_int16 data 0 (sz - 1) mid1_idx;
             mid1 = fst r1;
             r2 = quickselect_int16 (snd r1) (mid1_idx + 1) (sz - 1) mid2_idx;
             mid2 = fst r2
         in word_of_int (c_div (sint mid1 + sint mid2) 2)))"

subsection \<open>Notions for the correctness proof\<close>

text \<open>
  The segment \<open>[lo, hi]\<close> of an array is isolated when everything to the left of \<open>lo\<close>
  is at most everything from \<open>lo\<close> on, and everything up to \<open>hi\<close> is at most everything
  to the right of \<open>hi\<close>; the order is that of the signed values.
\<close>

definition isolated :: "i16 list \<Rightarrow> nat \<Rightarrow> nat \<Rightarrow> bool" where
  "isolated arr lo hi =
     (\<forall>i j. i < length arr \<longrightarrow> j < length arr \<longrightarrow> (i < lo \<and> lo \<le> j) \<or> (i \<le> hi \<and> hi < j) \<longrightarrow>
        sint (arr ! i) \<le> sint (arr ! j))"

text \<open>Position \<open>k\<close> is selected when nothing before it is larger and nothing after it smaller.\<close>

definition selected :: "i16 list \<Rightarrow> nat \<Rightarrow> bool" where
  "selected arr k =
     (\<forall>i < length arr. (i < k \<longrightarrow> sint (arr ! i) \<le> sint (arr ! k)) \<and>
                        (k < i \<longrightarrow> sint (arr ! k) \<le> sint (arr ! i)))"

text \<open>The invariant of the partition loop, with the pivot parked at \<open>high\<close>.\<close>

definition part_inv :: "i16 \<Rightarrow> nat \<Rightarrow> nat \<Rightarrow> nat \<Rightarrow> nat \<Rightarrow> i16 list \<Rightarrow> bool" where
  "part_inv pivot low high i j arr =
     (low \<le> i \<and> i \<le> j \<and> j \<le> high \<and> high < length arr \<and> isolated arr low high \<and>
      (\<forall>x. low \<le> x \<and> x < i \<longrightarrow> sint (arr ! x) < sint pivot) \<and>
      (\<forall>x. i \<le> x \<and> x < j \<longrightarrow> sint pivot \<le> sint (arr ! x)) \<and>
      arr ! high = pivot)"

text \<open>The segment after the partition step: smaller values, the pivot at \<open>p\<close>, the rest.\<close>

definition pivoted :: "i16 list \<Rightarrow> nat \<Rightarrow> nat \<Rightarrow> nat \<Rightarrow> bool" where
  "pivoted arr lo hi p =
     (lo \<le> p \<and> p \<le> hi \<and> hi < length arr \<and> isolated arr lo hi \<and>
      (\<forall>x. lo \<le> x \<and> x < p \<longrightarrow> sint (arr ! x) < sint (arr ! p)) \<and>
      (\<forall>x. p < x \<and> x \<le> hi \<longrightarrow> sint (arr ! p) \<le> sint (arr ! x)))"

section \<open>Theorems\<close>

subsection \<open>api\_parse\_u32\<close>

lemma dec_from_ge: "a \<le> dec_from a ds"
  unfolding dec_from_def
proof (induction ds arbitrary: a)
  case Nil
  then show ?case by simp
next
  case (Cons c cs)
  have "a \<le> a * 10 + digit_nat c" by simp
  also have "\<dots> \<le> foldl (\<lambda>a c. a * 10 + digit_nat c) (a * 10 + digit_nat c) cs" by (rule Cons.IH)
  finally show ?case by simp
qed

lemma u32_overflow_check:
  fixes acc :: u32
  assumes "d \<le> 9"
  shows "(acc > 429496729 \<or> (acc = 429496729 \<and> (of_nat d :: u32) > 5)) \<longleftrightarrow> unat acc * 10 + d \<ge> 2 ^ 32"
proof -
  have d: "unat (of_nat d :: u32) = d" using assms by (simp add: unat_of_nat)
  have "(of_nat d :: u32) > 5 \<longleftrightarrow> d > 5" using d by (simp add: word_less_nat_alt)
  moreover have "acc > 429496729 \<longleftrightarrow> unat acc > 429496729" by (simp add: word_less_nat_alt)
  moreover have "acc = 429496729 \<longleftrightarrow> unat acc = 429496729"
    by (simp add: word_unat_eq_iff)
  ultimately show ?thesis using assms by auto
qed

lemma u32_accumulate:
  fixes acc :: u32
  assumes "d \<le> 9" "unat acc * 10 + d < 2 ^ 32"
  shows "unat (acc * 10 + of_nat d) = unat acc * 10 + d"
  using assms by (simp add: unat_word_ariths unat_of_nat)

lemma is_digit_le9: "is_digit c \<Longrightarrow> digit_nat c \<le> 9"
  by (auto simp add: is_digit_def digit_nat_def)

lemma u32_digits_nondigit:
  "\<not> is_digit (peek s) \<Longrightarrow> u32_digits s acc nd = Some (s, acc, nd)"
  by (cases s) simp_all

lemma u32_digits_run:
  assumes "list_all is_digit ds" "\<not> is_digit (peek rest)"
  shows "u32_digits (ds @ rest) acc nd =
           (if dec_from (unat acc) ds < 2 ^ 32
            then Some (rest, of_nat (dec_from (unat acc) ds), nd + length ds)
            else None)"
  using assms
proof (induction ds arbitrary: acc nd)
  case Nil
  have "unat acc < 2 ^ 32" using unsigned_less[of acc, where ?'a = nat] by simp
  with Nil show ?case by (simp add: u32_digits_nondigit dec_from_def)
next
  case (Cons c cs)
  then have c: "is_digit c" and cs: "list_all is_digit cs" by simp_all
  have d9: "digit_nat c \<le> 9" using c by (rule is_digit_le9)
  have step: "dec_from (unat acc) (c # cs) = dec_from (unat acc * 10 + digit_nat c) cs"
    by (simp add: dec_from_def)
  show ?case
  proof (cases "unat acc * 10 + digit_nat c < 2 ^ 32")
    case True
    then have nov: "\<not> (acc > 429496729 \<or> (acc = 429496729 \<and> (of_nat (digit_nat c) :: u32) > 5))"
      using u32_overflow_check[OF d9, of acc] by simp
    have un: "unat (acc * 10 + of_nat (digit_nat c)) = unat acc * 10 + digit_nat c"
      using u32_accumulate[OF d9 True] .
    have unfold: "u32_digits ((c # cs) @ rest) acc nd =
                    u32_digits (cs @ rest) (acc * 10 + of_nat (digit_nat c)) (nd + 1)"
      using nov c by (auto simp add: Let_def)
    have "u32_digits (cs @ rest) (acc * 10 + of_nat (digit_nat c)) (nd + 1) =
            (if dec_from (unat acc * 10 + digit_nat c) cs < 2 ^ 32
             then Some (rest, of_nat (dec_from (unat acc * 10 + digit_nat c) cs), nd + 1 + length cs)
             else None)"
      using Cons.IH[OF cs Cons.prems(2), of "acc * 10 + of_nat (digit_nat c)" "nd + 1"]
      unfolding un .
    then show ?thesis unfolding unfold step by simp
  next
    case False
    then have ov: "acc > 429496729 \<or> (acc = 429496729 \<and> (of_nat (digit_nat c) :: u32) > 5)"
      using u32_overflow_check[OF d9, of acc] by simp
    have "dec_from (unat acc * 10 + digit_nat c) cs \<ge> 2 ^ 32"
      using False dec_from_ge[of "unat acc * 10 + digit_nat c" cs] by simp
    moreover have "u32_digits ((c # cs) @ rest) acc nd = None"
      using ov c by (auto simp add: Let_def)
    ultimately show ?thesis unfolding step by simp
  qed
qed


lemma ws_not_digit: "is_ws c \<Longrightarrow> \<not> is_digit c"
  by (auto simp add: is_ws_def is_digit_def)

lemma term_not_digit: "is_term_or_eol c \<Longrightarrow> \<not> is_digit c"
  by (auto simp add: is_term_or_eol_def is_digit_def)

lemma skip_ws_stop: "\<not> is_ws (peek r) \<Longrightarrow> skip_ws r = r"
  by (cases r) (simp_all add: skip_ws_def)

lemma skip_ws_lead: "list_all is_ws lead \<Longrightarrow> \<not> is_ws (peek r) \<Longrightarrow> skip_ws (lead @ r) = r"
  using skip_ws_stop[of r] by (induction lead) (simp_all add: skip_ws_def)

lemma peek_append: "xs \<noteq> [] \<Longrightarrow> peek (xs @ ys) = peek xs"
  by (cases xs) simp_all

lemma peek_dropWhile: "\<not> P (peek [] ) \<Longrightarrow> \<not> P (peek (dropWhile P s))"
  by (induction s) auto

lemma api_parse_u32_form:
  assumes "u32_form lead ds trail rest"
  shows "api_parse_u32 (lead @ ds @ trail @ rest) = Some (of_nat (dec_value ds))"
proof -
  from assms have lead: "list_all is_ws lead" and ne: "ds \<noteq> []" and dg: "list_all is_digit ds"
    and v: "dec_value ds < 2 ^ 32" and trail: "list_all is_ws trail"
    and tm: "is_term_or_eol (peek rest)" and nws: "\<not> is_ws (peek rest)"
    by (simp_all add: u32_form_def)
  from ne dg have "is_digit (peek ds)" by (cases ds) simp_all
  then have "\<not> is_ws (peek (ds @ trail @ rest))"
    using ne ws_not_digit by (auto simp add: peek_append)
  then have s1: "skip_ws (lead @ ds @ trail @ rest) = ds @ trail @ rest"
    using lead by (rule skip_ws_lead[rotated])
  have nd: "\<not> is_digit (peek (trail @ rest))"
  proof (cases trail)
    case Nil
    then show ?thesis using tm term_not_digit by simp
  next
    case (Cons c cs)
    then show ?thesis using trail ws_not_digit by simp
  qed
  have run: "u32_digits (ds @ trail @ rest) 0 0 = Some (trail @ rest, of_nat (dec_value ds), length ds)"
    using u32_digits_run[OF dg nd, of 0 0] v by (simp add: dec_value_def)
  have s2: "skip_ws (trail @ rest) = rest" using trail nws by (rule skip_ws_lead)
  show ?thesis using ne tm by (simp add: api_parse_u32_def s1 run s2)
qed

lemma api_parse_u32_Some_form:
  assumes "api_parse_u32 s = Some v"
  shows "\<exists>lead ds trail rest. s = lead @ ds @ trail @ rest \<and> u32_form lead ds trail rest \<and>
           v = of_nat (dec_value ds)"
proof -
  define lead where "lead = takeWhile is_ws s"
  define s1 where "s1 = dropWhile is_ws s"
  define ds where "ds = takeWhile is_digit s1"
  define r1 where "r1 = dropWhile is_digit s1"
  define trail where "trail = takeWhile is_ws r1"
  define rest where "rest = dropWhile is_ws r1"
  have s: "s = lead @ ds @ trail @ rest"
    by (simp add: lead_def s1_def ds_def r1_def trail_def rest_def)
  have dg: "list_all is_digit ds"
    by (auto simp add: ds_def list_all_iff dest: set_takeWhileD)
  have nd: "\<not> is_digit (peek r1)"
    unfolding r1_def by (rule peek_dropWhile) (simp add: is_digit_def)
  have s1: "s1 = ds @ r1" by (simp add: ds_def r1_def)
  have run: "u32_digits s1 0 0 =
           (if dec_value ds < 2 ^ 32 then Some (r1, of_nat (dec_value ds), length ds) else None)"
    unfolding s1 using u32_digits_run[OF dg nd, of 0 0] by (simp add: dec_value_def)
  from assms have ok: "dec_value ds < 2 ^ 32" and ne: "ds \<noteq> []"
    and tm: "is_term_or_eol (peek rest)" and v: "v = of_nat (dec_value ds)"
    unfolding api_parse_u32_def skip_ws_def s1_def[symmetric] run rest_def
    by (auto split: if_splits)
  have "list_all is_ws lead" "list_all is_ws trail"
    by (auto simp add: lead_def trail_def list_all_iff dest: set_takeWhileD)
  moreover have "\<not> is_ws (peek rest)"
    unfolding rest_def by (rule peek_dropWhile) (simp add: is_ws_def)
  ultimately have "u32_form lead ds trail rest"
    using ok ne dg tm by (simp add: u32_form_def)
  with s v show ?thesis by blast
qed

lemma api_parse_u32_overflow:
  assumes "list_all is_ws lead" "list_all is_digit ds" "dec_value ds > 4294967295"
  shows "api_parse_u32 (lead @ ds @ rest) = None"
proof -
  define more where "more = takeWhile is_digit rest"
  define r1 where "r1 = dropWhile is_digit rest"
  have rest: "rest = more @ r1" by (simp add: more_def r1_def)
  have dg: "list_all is_digit (ds @ more)"
    using assms(2) by (auto simp add: more_def list_all_iff dest: set_takeWhileD)
  have nd: "\<not> is_digit (peek r1)"
    unfolding r1_def by (rule peek_dropWhile) (simp add: is_digit_def)
  have "dec_from 0 (ds @ more) = dec_from (dec_from 0 ds) more" by (simp add: dec_from_def)
  then have big: "dec_from 0 (ds @ more) \<ge> 2 ^ 32"
    using dec_from_ge[of "dec_from 0 ds" more] assms(3) by (simp add: dec_value_def)
  have run: "u32_digits ((ds @ more) @ r1) 0 0 = None"
    using u32_digits_run[OF dg nd, of 0 0] big by simp
  have ne: "ds \<noteq> []" using assms(3) by (auto simp add: dec_value_def dec_from_def)
  then have "is_digit (peek ds)" using assms(2) by (cases ds) simp_all
  then have "\<not> is_ws (peek (ds @ rest))" using ne ws_not_digit by (auto simp add: peek_append)
  then have "skip_ws (lead @ ds @ rest) = ds @ rest" using assms(1) by (rule skip_ws_lead[rotated])
  then show ?thesis using run by (simp add: api_parse_u32_def rest)
qed

lemma api_parse_u32_no_digit:
  assumes "list_all is_ws lead" "\<not> is_ws (peek rest)" "\<not> is_digit (peek rest)"
  shows "api_parse_u32 (lead @ rest) = None"
proof -
  have "skip_ws (lead @ rest) = rest"
    using assms(1,2) by (rule skip_ws_lead)
  then show ?thesis using assms(3) by (simp add: api_parse_u32_def u32_digits_nondigit)
qed

text \<open>
  C4, as stated: the string \<open>12 x\<close> has the claimed shape (digits, no trailing blank,
  the terminator space), so it would have to be accepted with value 12. The code skips
  the space as a trailing blank, finds \<open>x\<close> and fails.
\<close>

theorem C4_space_terminator_counterexample:
  "u32_form_claimed [] ''12'' [] '' x'' \<and> api_parse_u32 ([] @ ''12'' @ [] @ '' x'') = None"
  by (simp add: u32_form_claimed_def api_parse_u32_def skip_ws_def is_ws_def is_digit_def
      digit_nat_def is_term_or_eol_def dec_value_def dec_from_def)

text \<open>
  C4, amended: api\_parse\_u32 accepts exactly the strings made of optional leading
  spaces/tabs, one or more decimal digits whose value fits in 32 bits, optional trailing
  spaces/tabs, and then NUL, comma, CR or LF, and returns that value. A digit string
  denoting more than 4294967295 fails, whatever follows it, and so does a string whose
  first character after the leading blanks is not a digit (a sign, or no digit at all).
\<close>

theorem C4_api_parse_u32_exact:
  "(api_parse_u32 s = Some v \<longleftrightarrow>
      (\<exists>lead ds trail rest. s = lead @ ds @ trail @ rest \<and> u32_form lead ds trail rest \<and>
         v = of_nat (dec_value ds))) \<and>
   (list_all is_ws lead' \<and> list_all is_digit ds' \<and> dec_value ds' > 4294967295 \<longrightarrow>
      api_parse_u32 (lead' @ ds' @ rest') = None) \<and>
   (list_all is_ws lead' \<and> \<not> is_ws (peek rest') \<and> \<not> is_digit (peek rest') \<longrightarrow>
      api_parse_u32 (lead' @ rest') = None)"
  using api_parse_u32_form api_parse_u32_Some_form api_parse_u32_overflow api_parse_u32_no_digit
  by blast

theorem C4_api_parse_u32_exact_witness:
  "api_parse_u32 ''  4294967295 ,x'' = Some 4294967295 \<and>
   api_parse_u32 '' 4294967296'' = None \<and>
   api_parse_u32 '' +7'' = None"
proof -
  have f: "u32_form ''  '' ''4294967295'' '' '' '',x''"
    by (simp add: u32_form_def is_ws_def is_digit_def digit_nat_def is_term_or_eol_def
        dec_value_def dec_from_def)
  have v: "(4294967295 :: u32) = of_nat (dec_value ''4294967295'')"
    by (simp add: dec_value_def dec_from_def digit_nat_def)
  have s: "''  4294967295 ,x'' = ''  '' @ ''4294967295'' @ '' '' @ '',x''"
    by simp
  have "\<exists>lead ds trail rest. ''  4294967295 ,x'' = lead @ ds @ trail @ rest \<and>
          u32_form lead ds trail rest \<and> (4294967295 :: u32) = of_nat (dec_value ds)"
    using s f v by (intro exI conjI)
  then have a: "api_parse_u32 ''  4294967295 ,x'' = Some 4294967295"
    by (rule C4_api_parse_u32_exact [THEN conjunct1, THEN iffD2])
  have "list_all is_ws '' '' \<and> list_all is_digit ''4294967296'' \<and>
        dec_value ''4294967296'' > 4294967295"
    by (simp add: is_ws_def is_digit_def dec_value_def dec_from_def digit_nat_def)
  then have "api_parse_u32 ('' '' @ ''4294967296'' @ []) = None"
    by (rule C4_api_parse_u32_exact [THEN conjunct2, THEN conjunct1, THEN mp])
  then have b: "api_parse_u32 '' 4294967296'' = None" by simp
  have "list_all is_ws '' '' \<and> \<not> is_ws (peek ''+7'') \<and> \<not> is_digit (peek ''+7'')"
    by (simp add: is_ws_def is_digit_def)
  then have "api_parse_u32 ('' '' @ ''+7'') = None"
    by (rule C4_api_parse_u32_exact [THEN conjunct2, THEN conjunct2, THEN mp])
  then have c: "api_parse_u32 '' +7'' = None" by simp
  from a b c show ?thesis by simp
qed

subsection \<open>Fixed-point decimals\<close>

text \<open>
  The conversion at values that tell the roundings apart: \<open>100.5\<close> and \<open>2.5\<close> are floats;
  \<open>0.1\<close> is not, and the float nearest to the quotient is stored; \<open>16777217\<close> needs 25
  bits and goes through \<^verbatim>\<open>double\<close> to the even neighbour; \<open>4294967.001\<close> loses its decimals;
  \<open>-0\<close> keeps its sign.
\<close>

lemma api_parse_float_fixed3_examples:
  "api_parse_float_fixed3 ''100.5'' = Some \<lparr>fl_neg = False, fl_mag = 201 / 2\<rparr>"
  "api_parse_float_fixed3 ''2.5,'' = Some \<lparr>fl_neg = False, fl_mag = 5 / 2\<rparr>"
  "api_parse_float_fixed3 ''0.1'' = Some \<lparr>fl_neg = False, fl_mag = 13421773 / 134217728\<rparr>"
  "api_parse_float_fixed3 ''16777217'' = Some \<lparr>fl_neg = False, fl_mag = 16777216\<rparr>"
  "api_parse_float_fixed3 ''4294967.001'' = Some \<lparr>fl_neg = False, fl_mag = 4294967\<rparr>"
  "api_parse_float_fixed3 ''-0'' = Some \<lparr>fl_neg = True, fl_mag = 0\<rparr>"
  "api_parse_float_fixed3 ''1.2345'' = None"
  by code_simp+

lemma fixed3_to_float_examples:
  "fixed3_to_float 0 1 = 8589935 / 8589934592"
  "fixed3_to_float 0 999 = 16760439 / 16777216"
  "fixed3_to_float 4294966 999 = 4294967"
  "fixed3_to_float 4294967295 999 = 4294967296"
  "fixed3_to_float 33554435 500 = 33554436"
  "fixed3_to_float 123456 789 = 15802469 / 128"
  "fixed3_to_float 3 141 = 13174309 / 4194304"
  by code_simp+

subsection \<open>Sensor\_SnapODR\<close>

text \<open>What the code does with every request: it rounds down to a supported rate.\<close>

lemma Sensor_SnapODR_rounds_down:
  "Sensor_SnapODR req \<in> set supported_odr \<and>
   (if req < 100 then Sensor_SnapODR req = 100
    else Sensor_SnapODR req \<le> req \<and>
         (\<forall>s \<in> set supported_odr. s \<le> req \<longrightarrow> s \<le> Sensor_SnapODR req))"
  by (auto simp add: Sensor_SnapODR_def supported_odr_def word_le_nat_alt word_less_nat_alt)

text \<open>
  C2 at the requests 3199, 399, 801 and 150. A request of 3199 yields 1600 and one of 399
  yields 200, where the smallest supported rate not below the request, which is also the
  one closest supported rate, is 3200 and 400. The two requests that the claim gives as
  examples yield 800 and 100, not 1600 and 200.
\<close>

theorem C2_snap_neither_up_nor_closest:
  "Sensor_SnapODR 3199 = 1600 \<and> snap_up 3199 = 3200 \<and> closest_supported 3199 = [3200] \<and>
   Sensor_SnapODR 399 = 200 \<and> snap_up 399 = 400 \<and> closest_supported 399 = [400] \<and>
   Sensor_SnapODR 801 = 800 \<and> snap_up 801 = 1600 \<and> closest_supported 801 = [800] \<and>
   Sensor_SnapODR 150 = 100 \<and> snap_up 150 = 200 \<and> closest_supported 150 = [100, 200]"
  by code_simp

subsection \<open>CRC-16\<close>

lemma crc_shift_top:
  "crc_shift c = (if bit c 15 then push_bit 1 c XOR PROTO_CRC16_POLY else push_bit 1 c)"
proof -
  have "(0x8000 :: u16) = 2 ^ 15" by simp
  then have "(c AND 0x8000 \<noteq> 0) = bit c 15"
    by (simp only: and_exp_eq_0_iff_not_bit) simp
  then show ?thesis by (simp add: crc_shift_def)
qed

lemma crc_shift_xor:
  "crc_shift (r XOR m) = ref_step r (bit m 15) XOR push_bit 1 m"
proof -
  have top: "bit (r XOR m) 15 = (bit r 15 \<noteq> bit m 15)"
    by (simp add: bit_xor_iff)
  have sh: "push_bit 1 (r XOR m) = push_bit 1 r XOR push_bit 1 m"
    by (rule push_bit_xor)
  show ?thesis
    unfolding crc_shift_top ref_step_def top sh PROTO_CRC16_POLY_def ref_poly_def
    by (simp add: xor.assoc xor.commute xor.left_commute)
qed

lemma crc_shift_funpow:
  "n \<le> 16 \<Longrightarrow>
   (crc_shift ^^ n) (r XOR m) =
     foldl ref_step r (map (\<lambda>i. bit m (15 - i)) [0..<n]) XOR push_bit n m"
proof (induction n arbitrary: r m)
  case 0
  then show ?case by simp
next
  case (Suc n)
  have "(crc_shift ^^ Suc n) (r XOR m) = (crc_shift ^^ n) (crc_shift (r XOR m))"
    by (simp add: funpow_swap1)
  also have "\<dots> = (crc_shift ^^ n) (ref_step r (bit m 15) XOR push_bit 1 m)"
    by (simp add: crc_shift_xor)
  also have "\<dots> = foldl ref_step (ref_step r (bit m 15))
                     (map (\<lambda>i. bit (push_bit 1 m) (15 - i)) [0..<n]) XOR push_bit n (push_bit 1 m)"
    using Suc.prems by (intro Suc.IH) simp
  also have "map (\<lambda>i. bit (push_bit 1 m) (15 - i)) [0..<n] = map (\<lambda>i. bit m (15 - Suc i)) [0..<n]"
  proof (rule map_cong[OF refl])
    fix i assume "i \<in> set [0..<n]"
    then have "i < 15" using Suc.prems by simp
    then have "15 - i - 1 = 15 - Suc i" "1 \<le> 15 - i" "15 - i < 16" by simp_all
    then show "bit (push_bit 1 m) (15 - i) = bit m (15 - Suc i)"
      unfolding bit_push_bit_iff by (simp add: possible_bit_word)
  qed
  also have "push_bit n (push_bit 1 m) = push_bit (Suc n) m"
    by (simp add: push_bit_push_bit)
  finally have main: "(crc_shift ^^ Suc n) (r XOR m) =
      foldl ref_step (ref_step r (bit m 15)) (map (\<lambda>i. bit m (15 - Suc i)) [0..<n])
        XOR push_bit (Suc n) m" .
  have bits: "map (\<lambda>i. bit m (15 - i)) [0..<Suc n] =
                bit m 15 # map (\<lambda>i. bit m (15 - Suc i)) [0..<n]"
    by (simp only: map_upt_Suc) simp
  show ?case by (simp only: main bits foldl_Cons)
qed

lemma msb_first_high:
  "map (\<lambda>i. bit (push_bit 8 (ucast b :: u16)) (15 - i)) [0..<8] = msb_first b"
  unfolding msb_first_def
  by (rule map_cong) (auto simp add: bit_push_bit_iff bit_ucast_iff)

lemma update_byte_ref:
  "proto_crc16_update_byte r b = foldl ref_step r (msb_first b)"
proof -
  have "push_bit 8 (push_bit 8 (ucast b :: u16)) = 0"
    by (simp add: push_bit_push_bit)
  then show ?thesis
    unfolding proto_crc16_update_byte_def
    using crc_shift_funpow[of 8 r "push_bit 8 (ucast b)"]
    by (simp add: msb_first_high)
qed

lemma update_ref:
  "foldl proto_crc16_update_byte r data = foldl ref_step r (concat (map msb_first data))"
  by (induction data arbitrary: r) (simp_all add: update_byte_ref)

lemma update_chunks:
  "foldl proto_crc16_update st chunks = proto_crc16_update st (concat chunks)"
  by (induction chunks arbitrary: st) (simp_all add: proto_crc16_update_def)

lemma crc_check_code:
  "proto_crc16_buf (bytes_of ''123456789'' @ [0x0D, 0x0A]) = 0xDC92"
  by code_simp

lemma crc_check_ref:
  "crc16_ccitt_false (bytes_of ''123456789'') = 0x29B1"
  by code_simp

text \<open>
  C5: on every byte sequence proto\_crc16\_buf is the CRC-16/CCITT-FALSE of the reference
  definition; feeding the bytes to proto\_crc16\_update in any number of chunks gives the
  one-shot value over their concatenation; and over the 11 bytes \<open>123456789\<close> CR LF both
  give \<open>0xDC92\<close>. (The reference gives the catalogue check value \<open>0x29B1\<close> on \<open>123456789\<close>.)
\<close>

theorem C5_crc16_ccitt_false:
  "proto_crc16_buf data = crc16_ccitt_false data \<and>
   proto_crc16_final (foldl proto_crc16_update proto_crc16_init chunks) =
     proto_crc16_buf (concat chunks) \<and>
   proto_crc16_buf (bytes_of ''123456789'' @ [0x0D, 0x0A]) = 0xDC92 \<and>
   crc16_ccitt_false (bytes_of ''123456789'' @ [0x0D, 0x0A]) = 0xDC92 \<and>
   crc16_ccitt_false (bytes_of ''123456789'') = 0x29B1"
proof -
  have eq: "proto_crc16_buf d = crc16_ccitt_false d" for d
    by (simp add: proto_crc16_buf_def proto_crc16_final_def proto_crc16_update_def
        proto_crc16_init_def crc16_ccitt_false_def update_ref PROTO_CRC16_INIT_def
        ref_init_def ref_xorout_def)
  have "proto_crc16_final (foldl proto_crc16_update proto_crc16_init chunks) =
          proto_crc16_buf (concat chunks)"
    by (simp add: update_chunks proto_crc16_buf_def)
  then show ?thesis
    using eq[of data] eq[of "bytes_of ''123456789'' @ [0x0D, 0x0A]"] crc_check_code crc_check_ref
    by simp
qed

subsection \<open>The command handler\<close>

subsection \<open>Sending\<close>

lemma COMM_Sendf_tx:
  "0 < length l \<Longrightarrow> length l \<le> 256 \<Longrightarrow> COMM_Sendf l fw = fw\<lparr>tx := tx fw @ [l]\<rparr>"
  by (simp add: COMM_Sendf_def PROTO_MAX_LINE_def)

lemma nack_set_cfg:
  "Telemetry_SendNACK CMD_SET_CFG ''param_range'' 102 fw =
     fw\<lparr>tx := tx fw @ [''NACK,SUBJECT=SET_CFG,reason=param_range,code=102'' @ PROTO_EOL]\<rparr>"
  by (simp add: Telemetry_SendNACK_def CMD_SET_CFG_def fmt_u32_def PROTO_EOL_def COMM_Sendf_tx)

lemma ack_set_cfg:
  "Telemetry_SendACK CMD_SET_CFG fw = fw\<lparr>tx := tx fw @ [''ACK,SUBJECT=SET_CFG'' @ PROTO_EOL]\<rparr>"
  by (simp add: Telemetry_SendACK_def CMD_SET_CFG_def PROTO_EOL_def COMM_Sendf_tx)

lemma error_set_odr:
  "Telemetry_SendERROR ''I2C'' 10 ''set_odr_busy'' fw =
     fw\<lparr>tx := tx fw @ [''ERROR,src=I2C,code=10,msg='' @ [CHR 0x22] @ ''set_odr_busy'' @ [CHR 0x22]
                         @ PROTO_EOL]\<rparr>"
  by (simp add: Telemetry_SendERROR_def fmt_u32_def PROTO_EOL_def COMM_Sendf_tx)

subsection \<open>SET\_CFG\<close>

lemma cfg_acceptable_code:
  "cfg_acceptable \<lparr>hb_ms = nh, burst_ms = nb, odr_hz = eff, stream_rate_hz = ns\<rparr> \<longleftrightarrow>
     \<not> (nb = 0 \<or> nb > 600000) \<and> \<not> (nh > 0 \<and> nh < 100) \<and> \<not> ns > eff \<and>
     \<not> (ns > 0 \<and> eff mod ns \<noteq> 0)"
proof -
  have m: "(eff mod ns \<noteq> 0) = (\<not> unat ns dvd unat eff)"
    by (simp add: word_unat_eq_iff unat_mod dvd_eq_mod_eq_0)
  show ?thesis
    unfolding cfg_acceptable_def m
    by (auto simp add: word_less_nat_alt word_unat_eq_iff)
qed

lemma if_chain4:
  "(if a then X else if b then X else if c then X else if d then X else Y) =
   (if a \<or> b \<or> c \<or> d then X else Y)"
  by simp

lemma Parse_SetCfg_reject:
  assumes "\<not> cfg_acceptable (set_cfg_request line (cfg (ctx fw)))"
  shows "Parse_SetCfg env line fw =
           Returned (fw\<lparr>tx := tx fw @
             [''NACK,SUBJECT=SET_CFG,reason=param_range,code=102'' @ PROTO_EOL]\<rparr>)"
proof -
  define nb where "nb = u32_field line ''burst_ms='' (burst_ms (cfg (ctx fw)))"
  define nh where "nh = u32_field line ''hb_ms='' (hb_ms (cfg (ctx fw)))"
  define ns where "ns = u32_field line ''stream_rate_hz='' (stream_rate_hz (cfg (ctx fw)))"
  define eff where "eff = Sensor_SnapODR (u32_field line ''odr_hz='' (odr_hz (cfg (ctx fw))))"
  have "(nb = 0 \<or> nb > 600000) \<or> (nh > 0 \<and> nh < 100) \<or> ns > eff \<or> (ns > 0 \<and> eff mod ns \<noteq> 0)"
    using assms unfolding set_cfg_request_def cfg_acceptable_code nb_def nh_def ns_def eff_def
    by auto
  then show ?thesis
    unfolding Parse_SetCfg_def Let_def nb_def[symmetric] nh_def[symmetric] ns_def[symmetric]
      eff_def[symmetric] if_chain4 nack_set_cfg
    by (simp only: if_True)
qed

lemma Parse_SetCfg_accept:
  assumes "cfg_acceptable (set_cfg_request line (cfg (ctx fw)))" "tim_base_init_ok env"
  shows "\<exists>fw'. Parse_SetCfg env line fw = Returned fw' \<and>
           cfg (ctx fw') = set_cfg_request line (cfg (ctx fw)) \<and>
           ''ACK,SUBJECT=SET_CFG'' @ PROTO_EOL \<in> set (sent_since fw fw')"
proof -
  define nb where "nb = u32_field line ''burst_ms='' (burst_ms (cfg (ctx fw)))"
  define nh where "nh = u32_field line ''hb_ms='' (hb_ms (cfg (ctx fw)))"
  define ns where "ns = u32_field line ''stream_rate_hz='' (stream_rate_hz (cfg (ctx fw)))"
  define eff where "eff = Sensor_SnapODR (u32_field line ''odr_hz='' (odr_hz (cfg (ctx fw))))"
  define r where "r = \<lparr>hb_ms = nh, burst_ms = nb, odr_hz = eff, stream_rate_hz = ns\<rparr>"
  define fw1 where "fw1 = fw\<lparr>ctx := (ctx fw)\<lparr>cfg := r\<rparr>\<rparr>"
  have r: "set_cfg_request line (cfg (ctx fw)) = r"
    by (simp add: set_cfg_request_def r_def nb_def nh_def ns_def eff_def)
  have "\<not> ((nb = 0 \<or> nb > 600000) \<or> (nh > 0 \<and> nh < 100) \<or> ns > eff \<or>
            (ns > 0 \<and> eff mod ns \<noteq> 0))"
    using assms(1) unfolding r r_def cfg_acceptable_code by blast
  then have unfold: "Parse_SetCfg env line fw =
     (if odr_hz (cfg (ctx fw)) \<noteq> eff then
        (case Sensor_ReconfigureTimer env eff
                (Sensor_SetODR env eff
                   (if Sensor_IsSampling fw1 then Sensor_StopSampling fw1 else fw1)) of
           Returned fw4 \<Rightarrow>
             Returned (Telemetry_SendACK CMD_SET_CFG (Streaming_UpdateDivider
               (Streaming_Reconfigure
                  (if Sensor_IsSampling fw1 then Sensor_StartSampling fw4 else fw4))))
         | other \<Rightarrow> other)
      else Returned (Telemetry_SendACK CMD_SET_CFG (Streaming_UpdateDivider fw1)))"
    unfolding Parse_SetCfg_def Let_def nb_def[symmetric] nh_def[symmetric] ns_def[symmetric]
      eff_def[symmetric] if_chain4 r_def[symmetric] fw1_def[symmetric]
    by (simp only: if_False)
  have keep: "cfg (ctx (Telemetry_SendACK CMD_SET_CFG (Streaming_UpdateDivider f))) = cfg (ctx f)"
    "tx (Telemetry_SendACK CMD_SET_CFG (Streaming_UpdateDivider f)) =
       tx f @ [''ACK,SUBJECT=SET_CFG'' @ PROTO_EOL]" for f
    by (simp_all add: ack_set_cfg Streaming_UpdateDivider_def Let_def)
  have fw1: "cfg (ctx fw1) = r" "tx fw1 = tx fw" by (simp_all add: fw1_def)
  show ?thesis
  proof (cases "odr_hz (cfg (ctx fw)) \<noteq> eff")
    case False
    then show ?thesis unfolding unfold r by (simp add: keep fw1 sent_since_def)
  next
    case True
    define fw2 where "fw2 = (if Sensor_IsSampling fw1 then Sensor_StopSampling fw1 else fw1)"
    define fw3 where "fw3 = Sensor_SetODR env eff fw2"
    have fw2: "cfg (ctx fw2) = r" "tx fw2 = tx fw"
      by (simp_all add: fw2_def fw1 Sensor_StopSampling_def)
    have fw3: "cfg (ctx fw3) = r" "\<exists>e. tx fw3 = tx fw @ e"
      by (simp_all add: fw3_def fw2 Sensor_SetODR_def Let_def error_set_odr)
    then obtain e where e: "tx fw3 = tx fw @ e" by blast
    obtain fw4 where fw4: "Sensor_ReconfigureTimer env eff fw3 = Returned fw4"
      "cfg (ctx fw4) = r" "tx fw4 = tx fw @ e"
      using assms(2) fw3(1) e by (simp add: Sensor_ReconfigureTimer_def Let_def)
    define fw5 where "fw5 = Streaming_Reconfigure
                              (if Sensor_IsSampling fw1 then Sensor_StartSampling fw4 else fw4)"
    have fw5: "cfg (ctx fw5) = r" "tx fw5 = tx fw @ e"
      using fw4(2,3)
      by (simp_all add: fw5_def Streaming_Reconfigure_def Sensor_StartSampling_def
          Sensor_StopSampling_def Let_def)
    have "Parse_SetCfg env line fw =
            Returned (Telemetry_SendACK CMD_SET_CFG (Streaming_UpdateDivider fw5))"
      unfolding unfold using True
      by (simp add: fw2_def[symmetric] fw3_def[symmetric] fw4(1) fw5_def[symmetric])
    then show ?thesis unfolding r by (simp add: keep fw5 sent_since_def)
  qed
qed

subsection \<open>The dispatcher\<close>

lemma strstr_no_first:
  "needle \<noteq> [] \<Longrightarrow> hd needle \<notin> set hay \<Longrightarrow> strstr hay needle = None"
proof (induction hay)
  case Nil
  then show ?case by simp
next
  case (Cons c cs)
  have "\<not> starts_with (c # cs) needle"
  proof
    assume "starts_with (c # cs) needle"
    then have "take (length needle) (c # cs) = needle" by (simp add: starts_with_def)
    with Cons.prems(1) have "hd needle = c" by (cases needle) auto
    with Cons.prems(2) show False by simp
  qed
  with Cons show ?case by simp
qed

lemma skip_spaces_verb:
  "c \<noteq> CHR '' '' \<Longrightarrow> dropWhile (\<lambda>c. c = CHR '' '') (c # cs) = c # cs"
  by simp

lemma process_command_set_cfg:
  assumes "peek rest = CHR 0x00 \<or> peek rest = CHR '' '' \<or> peek rest = CHR '',''"
  shows "process_command env (''SET_CFG'' @ rest) fw = Parse_SetCfg env (''SET_CFG'' @ rest) fw"
  using assms
  by (simp add: process_command_def host_line_hook_def starts_with_def dispatch_def verbs_def
      cmd_exact_def CMD_SET_CFG_def)

lemma process_command_hb:
  assumes "peek rest = CHR 0x00 \<or> peek rest = CHR '' '' \<or> peek rest = CHR '',''"
  shows "process_command env (''HB'' @ rest) fw = Returned (Parse_HB (''HB'' @ rest) fw)"
  using assms
  by (simp add: process_command_def host_line_hook_def starts_with_def dispatch_def verbs_def
      cmd_exact_def CMD_SET_CFG_def CMD_HB_def)

lemma process_command_stop:
  assumes "peek rest = CHR 0x00 \<or> peek rest = CHR '' '' \<or> peek rest = CHR '',''"
  shows "process_command env (''STOP'' @ rest) fw = Returned (handle_stop (''STOP'' @ rest) fw)"
  using assms
  by (simp add: process_command_def host_line_hook_def starts_with_def dispatch_def verbs_def
      cmd_exact_def CMD_SET_CFG_def CMD_HB_def CMD_SET_TRG_def CMD_STOP_def)

text \<open>
  C7: with a HAL whose timer initialisation succeeds, a SET\_CFG line is acknowledged if
  and only if the values it asks for are acceptable (\<open>burst_ms\<close> in \<open>[1, 600000]\<close>,
  \<open>hb_ms\<close> 0 or at least 100, stream rate at most the snapped data rate and, when not 0,
  a divisor of it); then the configuration holds exactly those values. Otherwise the
  reply is the NACK with reason param\_range and code 102, and nothing else changes.
\<close>

theorem C7_set_cfg_ack_iff_acceptable:
  assumes "tim_base_init_ok env"
    and "peek rest = CHR 0x00 \<or> peek rest = CHR '' '' \<or> peek rest = CHR '',''"
  shows "\<exists>fw'. process_command env (''SET_CFG'' @ rest) fw = Returned fw' \<and>
           (''ACK,SUBJECT=SET_CFG'' @ PROTO_EOL \<in> set (sent_since fw fw') \<longleftrightarrow>
              cfg_acceptable (set_cfg_request (''SET_CFG'' @ rest) (cfg (ctx fw)))) \<and>
           (cfg_acceptable (set_cfg_request (''SET_CFG'' @ rest) (cfg (ctx fw))) \<longrightarrow>
              cfg (ctx fw') = set_cfg_request (''SET_CFG'' @ rest) (cfg (ctx fw))) \<and>
           (\<not> cfg_acceptable (set_cfg_request (''SET_CFG'' @ rest) (cfg (ctx fw))) \<longrightarrow>
              fw' = fw\<lparr>tx := tx fw @
                [''NACK,SUBJECT=SET_CFG,reason=param_range,code=102'' @ PROTO_EOL]\<rparr>)"
proof (cases "cfg_acceptable (set_cfg_request (''SET_CFG'' @ rest) (cfg (ctx fw)))")
  case True
  then show ?thesis
    using Parse_SetCfg_accept[OF True assms(1)] process_command_set_cfg[OF assms(2)]
    by auto
next
  case False
  have "''ACK,SUBJECT=SET_CFG'' @ PROTO_EOL \<notin>
          set (sent_since fw (fw\<lparr>tx := tx fw @
            [''NACK,SUBJECT=SET_CFG,reason=param_range,code=102'' @ PROTO_EOL]\<rparr>))"
    by (simp add: sent_since_def)
  then show ?thesis
    using Parse_SetCfg_reject[OF False] process_command_set_cfg[OF assms(2)] False
    by auto
qed

theorem C7_set_cfg_ack_iff_acceptable_witness:
  "(\<exists>fw'. process_command hal_all_ok ''SET_CFG,odr_hz=100,burst_ms=100,hb_ms=0,stream_rate_hz=0''
             firmware_boot = Returned fw' \<and>
           ''ACK,SUBJECT=SET_CFG'' @ PROTO_EOL \<in> set (sent_since firmware_boot fw') \<and>
           cfg (ctx fw') = \<lparr>hb_ms = 0, burst_ms = 100, odr_hz = 100, stream_rate_hz = 0\<rparr>) \<and>
   (\<exists>fw'. process_command hal_all_ok ''SET_CFG,stream_rate_hz=300'' firmware_boot = Returned fw' \<and>
           fw' = firmware_boot\<lparr>tx := tx firmware_boot @
                [''NACK,SUBJECT=SET_CFG,reason=param_range,code=102'' @ PROTO_EOL]\<rparr>)"
proof -
  have env: "tim_base_init_ok hal_all_ok" by (simp add: hal_all_ok_def)
  have r1: "set_cfg_request (''SET_CFG'' @ '',odr_hz=100,burst_ms=100,hb_ms=0,stream_rate_hz=0'')
              (cfg (ctx firmware_boot)) =
            \<lparr>hb_ms = 0, burst_ms = 100, odr_hz = 100, stream_rate_hz = 0\<rparr>"
    by code_simp
  have a1: "cfg_acceptable \<lparr>hb_ms = 0, burst_ms = 100, odr_hz = 100, stream_rate_hz = 0\<rparr>"
    by (simp add: cfg_acceptable_def)
  have p1: "peek '',odr_hz=100,burst_ms=100,hb_ms=0,stream_rate_hz=0'' = CHR 0x00 \<or>
            peek '',odr_hz=100,burst_ms=100,hb_ms=0,stream_rate_hz=0'' = CHR '' '' \<or>
            peek '',odr_hz=100,burst_ms=100,hb_ms=0,stream_rate_hz=0'' = CHR '',''"
    by simp
  have r2: "set_cfg_request (''SET_CFG'' @ '',stream_rate_hz=300'') (cfg (ctx firmware_boot)) =
            \<lparr>hb_ms = 1000, burst_ms = 5000, odr_hz = 800, stream_rate_hz = 300\<rparr>"
    by code_simp
  have a2: "\<not> cfg_acceptable \<lparr>hb_ms = 1000, burst_ms = 5000, odr_hz = 800, stream_rate_hz = 300\<rparr>"
    by (simp add: cfg_acceptable_def)
  have p2: "peek '',stream_rate_hz=300'' = CHR 0x00 \<or> peek '',stream_rate_hz=300'' = CHR '' '' \<or>
            peek '',stream_rate_hz=300'' = CHR '',''"
    by simp
  show ?thesis
    using C7_set_cfg_ack_iff_acceptable[OF env p1, of firmware_boot]
      C7_set_cfg_ack_iff_acceptable[OF env p2, of firmware_boot]
    unfolding r1 r2 using a1 a2 by auto
qed

subsection \<open>HB\<close>

text \<open>
  C10: a line \<open>HB,ms=<v>\<close> whose value parses (and which holds no letter O, so neither
  ON nor OFF) stores 100 for \<open>0 < v < 100\<close> and \<open>v\<close> itself otherwise, which covers 0 and
  every value from 100 up, and the only reply is the ACK.
\<close>

theorem C10_hb_ms_snaps_up:
  assumes "api_parse_u32 rest = Some v" and "CHR ''O'' \<notin> set rest"
  shows "process_command env (''HB,ms='' @ rest) fw =
           Returned (fw\<lparr>ctx := (ctx fw)\<lparr>cfg := (cfg (ctx fw))
                          \<lparr>hb_ms := (if 0 < v \<and> v < 100 then 100 else v)\<rparr>\<rparr>,
                        tx := tx fw @ [''ACK,SUBJECT=HB'' @ PROTO_EOL]\<rparr>)"
proof -
  have off: "strstr (''HB,ms='' @ rest) ''OFF'' = None"
    using assms(2) by (intro strstr_no_first) simp_all
  have on: "strstr (''HB,ms='' @ rest) ''ON'' = None"
    using assms(2) by (intro strstr_no_first) simp_all
  have ms: "strstr (''HB,ms='' @ rest) ''ms='' = Some (''ms='' @ rest)"
    by (simp add: starts_with_def)
  have ack: "Telemetry_SendACK CMD_HB f = f\<lparr>tx := tx f @ [''ACK,SUBJECT=HB'' @ PROTO_EOL]\<rparr>" for f
    by (simp add: Telemetry_SendACK_def CMD_HB_def PROTO_EOL_def COMM_Sendf_tx)
  have hb: "Parse_HB (''HB,ms='' @ rest) fw =
              Telemetry_SendACK CMD_HB (set_hb_ms (if 0 < v \<and> v < 100 then 100 else v) fw)"
    unfolding Parse_HB_def off on ms using assms(1) by simp
  have line: "''HB'' @ '',ms='' @ rest = ''HB,ms='' @ rest" by simp
  have "process_command env (''HB'' @ '',ms='' @ rest) fw =
          Returned (Parse_HB (''HB'' @ '',ms='' @ rest) fw)"
    by (rule process_command_hb) simp
  then have "process_command env (''HB,ms='' @ rest) fw =
          Returned (Telemetry_SendACK CMD_HB
                      (set_hb_ms (if 0 < v \<and> v < 100 then 100 else v) fw))"
    unfolding line hb .
  then show ?thesis unfolding ack set_hb_ms_def by simp
qed

theorem C10_hb_ms_snaps_up_witness:
  "process_command hal_all_ok ''HB,ms=50'' firmware_boot =
     Returned (firmware_boot\<lparr>ctx := (ctx firmware_boot)\<lparr>cfg := (cfg (ctx firmware_boot))
                                \<lparr>hb_ms := 100\<rparr>\<rparr>,
                              tx := tx firmware_boot @ [''ACK,SUBJECT=HB'' @ PROTO_EOL]\<rparr>)"
proof -
  have p: "api_parse_u32 ''50'' = Some 50" by code_simp
  have o: "CHR ''O'' \<notin> set ''50''" by simp
  show ?thesis using C10_hb_ms_snaps_up[OF p o, of hal_all_ok firmware_boot] by simp
qed

subsection \<open>SET\_TRG\<close>

text \<open>
  C1 at two lines sent to the booted firmware: \<open>win_ms=10\<close> lies outside \<open>[50, 500]\<close> and
  \<open>k_mult=100.5\<close> outside \<open>[2.0, 20.0]\<close>, yet each value is stored and acknowledged.
  Only \<open>hold_ms\<close> is checked.
\<close>

theorem C1_set_trg_stores_out_of_range:
  "process_command hal_all_ok ''SET_TRG,win_ms=10'' firmware_boot =
     Returned (firmware_boot\<lparr>ctx := AppContext_Init\<lparr>trigger_settings :=
         \<lparr>k_mult = \<lparr>fl_neg = False, fl_mag = 5\<rparr>, win_ms = 10, hold_ms = 1500\<rparr>\<rparr>,
       tx := [''ACK,SUBJECT=SET_TRG'' @ PROTO_EOL]\<rparr>) \<and>
   process_command hal_all_ok ''SET_TRG,k_mult=100.5'' firmware_boot =
     Returned (firmware_boot\<lparr>ctx := AppContext_Init\<lparr>trigger_settings :=
         \<lparr>k_mult = \<lparr>fl_neg = False, fl_mag = 201 / 2\<rparr>, win_ms = 100,
          hold_ms = 1500\<rparr>\<rparr>,
       tx := [''ACK,SUBJECT=SET_TRG'' @ PROTO_EOL]\<rparr>) \<and>
   process_command hal_all_ok ''SET_TRG,hold_ms=99'' firmware_boot =
     Returned (firmware_boot\<lparr>tx :=
       [''NACK,SUBJECT=SET_TRG,reason=param_range,code=102'' @ PROTO_EOL]\<rparr>)"
  by code_simp

subsection \<open>The operating mode and the trigger state\<close>

lemma mode_write_at_consistent:
  "modes_consistent m \<Longrightarrow> mode_write_at w m = Some m' \<Longrightarrow> modes_consistent m'"
  by (cases m; cases w) (auto simp add: modes_consistent_def Let_def split: if_splits)

lemma modes_after_consistent:
  "modes_consistent m \<Longrightarrow> modes_after m ws = Some m' \<Longrightarrow> modes_consistent m'"
proof (induction ws arbitrary: m)
  case Nil
  then show ?case by simp
next
  case (Cons w ws)
  from Cons.prems(2) obtain m1 where
    w: "mode_write_at w m = Some m1" and rest: "modes_after m1 ws = Some m'"
    by (auto split: option.splits)
  from mode_write_at_consistent[OF Cons.prems(1) w] rest show ?case
    by (rule Cons.IH)
qed

lemma boot_consistent: "modes_consistent (modes_of firmware_boot)"
  by (simp add: modes_consistent_def modes_of_def firmware_boot_def AppContext_Init_def)

text \<open>In a reachable state with the operating mode Armed the trigger state is Armed.\<close>

lemma reachable_armed:
  assumes "reachable_by ws fw" and "op_mode (ctx fw) = OP_MODE_ARMED"
  shows "trg_state (ctx fw) = TRG_STATE_ARMED"
proof -
  have "modes_consistent (modes_of fw)"
    using assms(1) boot_consistent unfolding reachable_by_def
    by (rule modes_after_consistent[rotated])
  then show ?thesis using assms(2) by (simp add: modes_consistent_def modes_of_def)
qed

text \<open>
  The commands modelled in full write none of the three variables, so a state they
  return is reachable by the same paths.
\<close>

lemma COMM_Sendf_modes [simp]: "modes_of (COMM_Sendf l fw) = modes_of fw"
  by (simp add: COMM_Sendf_def modes_of_def)

lemma Telemetry_modes [simp]:
  "modes_of (Telemetry_SendACK s fw) = modes_of fw"
  "modes_of (Telemetry_SendNACK s r c fw) = modes_of fw"
  "modes_of (Telemetry_SendERROR s c r fw) = modes_of fw"
  by (simp_all add: Telemetry_SendACK_def Telemetry_SendNACK_def Telemetry_SendERROR_def)

lemma Sensor_modes [simp]:
  "modes_of (Sensor_StartSampling fw) = modes_of fw"
  "modes_of (Sensor_StopSampling fw) = modes_of fw"
  "modes_of (Sensor_SetODR env odr fw) = modes_of fw"
  by (simp_all add: Sensor_StartSampling_def Sensor_StopSampling_def Sensor_SetODR_def Let_def
      modes_of_def[of "_\<lparr>hal := _\<rparr>"] modes_of_def[of "_\<lparr>g_sampling_active := _\<rparr>"]
      modes_of_def[of fw])

lemma Sensor_ReconfigureTimer_modes:
  "Sensor_ReconfigureTimer env odr fw = Returned fw' \<Longrightarrow> modes_of fw' = modes_of fw"
  by (auto simp add: Sensor_ReconfigureTimer_def Let_def Error_Handler_def modes_of_def
      split: if_splits)

lemma Streaming_modes [simp]:
  "modes_of (Streaming_Reconfigure fw) = modes_of fw"
  "modes_of (Streaming_UpdateDivider fw) = modes_of fw"
  by (simp_all add: Streaming_Reconfigure_def Streaming_UpdateDivider_def Let_def
      Sensor_StopSampling_def modes_of_def)

lemma set_cfg_modes [simp]:
  "modes_of (fw\<lparr>ctx := (ctx fw)\<lparr>cfg := c\<rparr>\<rparr>) = modes_of fw"
  by (simp add: modes_of_def)

lemma Parse_SetCfg_modes:
  assumes "Parse_SetCfg env line fw = Returned fw'"
  shows "modes_of fw' = modes_of fw"
  using assms unfolding Parse_SetCfg_def Let_def
  by (auto simp add: Sensor_IsSampling_def split: if_splits outcome.splits
      dest!: Sensor_ReconfigureTimer_modes)

lemma handlers_modes [simp]:
  "modes_of (Parse_HB line fw) = modes_of fw"
  "modes_of (Parse_SetTrg line fw) = modes_of fw"
  "modes_of (handle_stop line fw) = modes_of fw"
  by (simp_all add: Parse_HB_def Parse_SetTrg_def handle_stop_def set_hb_ms_def Let_def
      modes_of_def[of "_\<lparr>ctx := _\<rparr>"] modes_of_def[of fw] split: option.splits)

lemma process_command_modes:
  assumes "process_command env line fw = Returned fw'"
  shows "modes_of fw' = modes_of fw"
  using assms Parse_SetCfg_modes[of env _ fw fw']
  by (auto simp add: process_command_def Let_def split: if_splits option.splits)

lemma process_command_reachable:
  "reachable_by ws fw \<Longrightarrow> process_command env line fw = Returned fw' \<Longrightarrow> reachable_by ws fw'"
  by (simp add: reachable_by_def process_command_modes)

subsection \<open>STOP\<close>

text \<open>
  C3: in every state the firmware can reach with the operating mode Armed, a STOP line
  without \<open>,FORCE\<close> is refused with NACK,SUBJECT=STOP,reason=blocked\_while\_armed,code=201
  and nothing but the lines sent changes: the operating mode, the trigger state and the
  stop flag are as before. Nothing is assumed of the trigger state; in such a state it is
  Armed.
\<close>

theorem C3_stop_blocked_while_armed:
  assumes "reachable_by ws fw"
    and "op_mode (ctx fw) = OP_MODE_ARMED"
    and "peek rest = CHR 0x00 \<or> peek rest = CHR '' '' \<or> peek rest = CHR '',''"
    and "strstr (''STOP'' @ rest) '',FORCE'' = None"
  shows "process_command env (''STOP'' @ rest) fw =
           Returned (fw\<lparr>tx := tx fw @
             [''NACK,SUBJECT=STOP,reason=blocked_while_armed,code=201'' @ PROTO_EOL]\<rparr>) \<and>
         trg_state (ctx fw) = TRG_STATE_ARMED"
proof -
  have nack: "Telemetry_SendNACK CMD_STOP ''blocked_while_armed'' 201 fw =
                fw\<lparr>tx := tx fw @
                  [''NACK,SUBJECT=STOP,reason=blocked_while_armed,code=201'' @ PROTO_EOL]\<rparr>"
    by (simp add: Telemetry_SendNACK_def CMD_STOP_def fmt_u32_def PROTO_EOL_def COMM_Sendf_tx)
  have trg: "trg_state (ctx fw) = TRG_STATE_ARMED"
    using assms(1,2) by (rule reachable_armed)
  show ?thesis
    unfolding process_command_stop[OF assms(3)] handle_stop_def Let_def
    using assms(2,4) trg by (simp add: nack)
qed

theorem C3_stop_blocked_while_armed_witness:
  "reachable_by arming_sequence armed_firmware \<and>
   reachable_by rearming_sequence armed_firmware \<and>
   op_mode (ctx armed_firmware) = OP_MODE_ARMED \<and>
   strstr ''STOP'' '',FORCE'' = None \<and>
   process_command hal_all_ok ''STOP'' armed_firmware =
     Returned (armed_firmware\<lparr>tx :=
       [''NACK,SUBJECT=STOP,reason=blocked_while_armed,code=201'' @ PROTO_EOL]\<rparr>)"
proof -
  have r: "reachable_by arming_sequence armed_firmware"
    by (simp add: reachable_by_def arming_sequence_def armed_firmware_def modes_of_def
        firmware_boot_def AppContext_Init_def)
  have r2: "reachable_by rearming_sequence armed_firmware"
    by (simp add: reachable_by_def rearming_sequence_def arming_sequence_def
        armed_firmware_def modes_of_def firmware_boot_def AppContext_Init_def)
  have m: "op_mode (ctx armed_firmware) = OP_MODE_ARMED"
    by (simp add: armed_firmware_def)
  have p: "peek [] = CHR 0x00 \<or> peek [] = CHR '' '' \<or> peek [] = CHR '',''" by simp
  have f: "strstr (''STOP'' @ []) '',FORCE'' = None" by (simp add: starts_with_def)
  show ?thesis
    using C3_stop_blocked_while_armed[OF r m p f, of hal_all_ok] r r2 m f
    by (simp add: armed_firmware_def firmware_boot_def)
qed

subsection \<open>The line assembler\<close>

lemma COMM_Process_append:
  "COMM_Process (xs @ ys) st =
     (let (s1, e1) = COMM_Process xs st; (s2, e2) = COMM_Process ys s1 in (s2, e1 @ e2))"
  by (induction xs arbitrary: st) (simp_all add: split_def Let_def)

lemma comm_fill:
  assumes "\<forall>c \<in> set p. \<not> is_eol c" "\<not> line_truncated st"
    and "line_len st + length p \<le> LINE_BUFFER_SIZE - 1"
  shows "\<exists>buf. COMM_Process p st = (st\<lparr>line_buffer := buf, line_len := line_len st + length p\<rparr>, [])"
  using assms
proof (induction p arbitrary: st)
  case Nil
  have "st = st\<lparr>line_buffer := line_buffer st, line_len := line_len st\<rparr>" by simp
  then show ?case by (metis COMM_Process.simps(1) add.right_neutral list.size(3))
next
  case (Cons c cs)
  define st1 where "st1 = st\<lparr>line_buffer := (line_buffer st)[line_len st := c],
                              line_len := line_len st + 1\<rparr>"
  have step: "comm_byte c st = (st1, [], False)"
    using Cons.prems by (simp add: comm_byte_def is_eol_def st1_def)
  have "\<exists>buf. COMM_Process cs st1 =
          (st1\<lparr>line_buffer := buf, line_len := line_len st1 + length cs\<rparr>, [])"
    using Cons.prems by (intro Cons.IH) (simp_all add: st1_def)
  then obtain buf where "COMM_Process cs st1 =
          (st1\<lparr>line_buffer := buf, line_len := line_len st1 + length cs\<rparr>, [])" by blast
  then have "COMM_Process (c # cs) st =
          (st\<lparr>line_buffer := buf, line_len := line_len st + length (c # cs)\<rparr>, [])"
    by (simp add: step st1_def)
  then show ?case by blast
qed

lemma comm_drop:
  assumes "\<forall>c \<in> set p. \<not> is_eol c" "line_truncated st"
  shows "COMM_Process p st = (st, [])"
  using assms by (induction p) (simp_all add: comm_byte_def is_eol_def)

lemma comm_overflow:
  assumes "\<not> is_eol c" "\<not> line_truncated st" "line_len st = LINE_BUFFER_SIZE - 1"
  shows "comm_byte c st = (st\<lparr>line_truncated := True, line_len := 0\<rparr>, [], False)"
  using assms by (simp add: comm_byte_def is_eol_def)

lemma comm_long_line:
  assumes p: "\<forall>c \<in> set p. \<not> is_eol c" and len: "length p > LINE_BUFFER_SIZE - 1"
    and st: "line_len st = 0" "\<not> line_truncated st" and t: "is_eol t"
  shows "\<exists>buf. COMM_Process (p @ [t]) st =
           (st\<lparr>line_buffer := buf, line_len := 0, line_truncated := False\<rparr>,
            [Sent NACK_LINE_TOO_LONG])"
proof -
  define a where "a = take (LINE_BUFFER_SIZE - 1) p"
  define c where "c = p ! (LINE_BUFFER_SIZE - 1)"
  define b where "b = drop (Suc (LINE_BUFFER_SIZE - 1)) p"
  have split: "p = a @ c # b"
    unfolding a_def b_def c_def using len by (intro id_take_nth_drop) simp
  have la: "length a = LINE_BUFFER_SIZE - 1" using len by (simp add: a_def)
  have pa: "\<forall>c \<in> set a. \<not> is_eol c" and pc: "\<not> is_eol c" and pb: "\<forall>c \<in> set b. \<not> is_eol c"
    using p unfolding split by simp_all
  obtain buf where fill: "COMM_Process a st =
      (st\<lparr>line_buffer := buf, line_len := line_len st + length a\<rparr>, [])"
    using comm_fill[OF pa st(2)] st(1) la by auto
  define s1 where "s1 = st\<lparr>line_buffer := buf, line_len := LINE_BUFFER_SIZE - 1\<rparr>"
  define s2 where "s2 = s1\<lparr>line_truncated := True, line_len := 0\<rparr>"
  have f1: "COMM_Process a st = (s1, [])" using fill st(1) la by (simp add: s1_def)
  have f2: "comm_byte c s1 = (s2, [], False)"
    unfolding s2_def by (rule comm_overflow[OF pc]) (simp_all add: s1_def st)
  have f3: "COMM_Process b s2 = (s2, [])"
    by (rule comm_drop[OF pb]) (simp add: s2_def)
  have f4: "comm_byte t s2 = (s2\<lparr>line_len := 0, line_truncated := False\<rparr>,
                            [Sent NACK_LINE_TOO_LONG], False)"
    using t by (simp add: comm_byte_def is_eol_def s2_def)
  have "COMM_Process (a @ (c # b) @ [t]) st =
          (s2\<lparr>line_len := 0, line_truncated := False\<rparr>, [Sent NACK_LINE_TOO_LONG])"
    by (simp add: COMM_Process_append[of a] COMM_Process_append[of b] f1 f2 f3 f4)
  moreover have "s2\<lparr>line_len := 0, line_truncated := False\<rparr> =
                 st\<lparr>line_buffer := buf, line_len := 0, line_truncated := False\<rparr>"
    by (simp add: s2_def s1_def)
  ultimately show ?thesis unfolding split by auto
qed

lemma comm_eol_same: "comm_byte (CHR 0x0D) st = comm_byte (CHR 0x0A) st"
  by (simp add: comm_byte_def)

lemma comm_crlf:
  "COMM_Process [CHR 0x0D, CHR 0x0A] st = COMM_Process [CHR 0x0D] st"
  by (simp add: comm_byte_def Let_def)

lemma comm_fill_content:
  assumes "\<forall>c \<in> set p. \<not> is_eol c" "\<not> line_truncated st"
    and "line_len st + length p \<le> LINE_BUFFER_SIZE - 1"
    and "length (line_buffer st) = LINE_BUFFER_SIZE"
  shows "COMM_Process p st =
           (st\<lparr>line_buffer := take (line_len st) (line_buffer st) @ p @
                                  drop (line_len st + length p) (line_buffer st),
                line_len := line_len st + length p\<rparr>, [])"
  using assms
proof (induction p arbitrary: st)
  case Nil
  then show ?case by simp
next
  case (Cons c cs)
  define n where "n = line_len st"
  define old where "old = line_buffer st"
  define st1 where "st1 = st\<lparr>line_buffer := old[n := c], line_len := n + 1\<rparr>"
  have n: "n < length old" using Cons.prems by (simp add: n_def old_def)
  have step: "comm_byte c st = (st1, [], False)"
    using Cons.prems by (simp add: comm_byte_def is_eol_def st1_def n_def old_def)
  have upd: "old[n := c] = take n old @ c # drop (Suc n) old"
    using n by (rule upd_conv_take_nth_drop)
  have "COMM_Process cs st1 =
          (st1\<lparr>line_buffer := take (line_len st1) (line_buffer st1) @ cs @
                                  drop (line_len st1 + length cs) (line_buffer st1),
                line_len := line_len st1 + length cs\<rparr>, [])"
    using Cons.prems by (intro Cons.IH) (simp_all add: st1_def n_def old_def)
  moreover have "take (n + 1) (old[n := c]) = take n old @ [c]"
    using n by (simp add: upd)
  moreover have "drop (n + 1 + length cs) (old[n := c]) = drop (n + length (c # cs)) old"
    by simp
  ultimately have "COMM_Process cs st1 =
          (st\<lparr>line_buffer := take n old @ (c # cs) @ drop (n + length (c # cs)) old,
               line_len := n + length (c # cs)\<rparr>, [])"
    by (simp add: st1_def)
  then show ?case by (simp add: step n_def old_def)
qed

lemma comm_line_dispatched:
  assumes p: "\<forall>c \<in> set p. \<not> is_eol c \<and> c \<noteq> CHR 0x00"
    and len: "0 < length p" "length p \<le> LINE_BUFFER_SIZE - 1"
    and st: "line_len st = 0" "\<not> line_truncated st" "length (line_buffer st) = LINE_BUFFER_SIZE"
    and t: "is_eol t"
  shows "snd (COMM_Process (p @ [t]) st) = [Dispatched p]"
proof -
  define buf where "buf = p @ drop (length p) (line_buffer st)"
  define s1 where "s1 = st\<lparr>line_buffer := buf, line_len := length p\<rparr>"
  have f1: "COMM_Process p st = (s1, [])"
    using comm_fill_content[of p st] p len st by (simp add: s1_def buf_def)
  have "length p < length buf"
    using len st by (simp add: buf_def LINE_BUFFER_SIZE_def PROTO_MAX_LINE_def)
  then have "buf[length p := CHR 0x00] = p @ CHR 0x00 # drop (Suc (length p)) buf"
    by (simp add: upd_conv_take_nth_drop buf_def)
  then have "c_string (buf[length p := CHR 0x00]) = p"
    using p by (simp add: c_string_def takeWhile_append2)
  then have f2: "snd (COMM_Process [t] s1) = [Dispatched p]"
    using t len by (simp add: comm_byte_def is_eol_def s1_def Let_def)
  show ?thesis
    using f1 f2 by (simp add: COMM_Process_append split_def)
qed

text \<open>The budgeted loop does what the plain loop does as long as neither budget runs out.\<close>

lemma comm_byte_called:
  "comm_byte c st = (st1, ev, called) \<Longrightarrow> called = (\<exists>l. ev = [Dispatched l])"
  by (auto simp add: comm_byte_def Let_def split: if_splits)

lemma budgeted_within_budget:
  assumes "\<forall>k. tick k - start_ms < COMM_MAX_MS_PER_CALL"
    and "lp + length (filter (\<lambda>e. \<exists>l. e = Dispatched l) (snd (COMM_Process cs st)))
           < COMM_MAX_LINES_PER_CALL"
  shows "budgeted_loop tick start_ms k lp cs st =
           ([], fst (COMM_Process cs st), snd (COMM_Process cs st))"
  using assms(2)
proof (induction cs arbitrary: k lp st)
  case Nil
  then show ?case by simp
next
  case (Cons c cs)
  obtain st1 ev1 called where step: "comm_byte c st = (st1, ev1, called)"
    by (metis prod_cases3)
  have called: "called = (\<exists>l. ev1 = [Dispatched l])" using step by (rule comm_byte_called)
  define lines where "lines = (if called then lp + 1 else lp)"
  have ev: "snd (COMM_Process (c # cs) st) = ev1 @ snd (COMM_Process cs st1)"
    by (simp add: step split_def Let_def)
  have n1: "length (filter (\<lambda>e. \<exists>l. e = Dispatched l) ev1) = (if called then 1 else 0)"
    using step by (auto simp add: comm_byte_def Let_def split: if_splits)
  have rest: "lines + length (filter (\<lambda>e. \<exists>l. e = Dispatched l) (snd (COMM_Process cs st1)))
                < COMM_MAX_LINES_PER_CALL"
    using Cons.prems unfolding ev lines_def by (cases called) (simp_all add: n1)
  then have small: "\<not> lines \<ge> COMM_MAX_LINES_PER_CALL" by simp
  have time: "\<not> tick k - start_ms \<ge> COMM_MAX_MS_PER_CALL" using assms(1) by (simp add: not_le)
  have "budgeted_loop tick start_ms (k + 1) lines cs st1 =
          ([], fst (COMM_Process cs st1), snd (COMM_Process cs st1))"
    using rest by (rule Cons.IH)
  then show ?case
    using small time by (simp add: step lines_def[symmetric] split_def Let_def)
qed

text \<open>
  C6 at a line of 255 payload bytes followed by CR LF, which is longer than the 254
  bytes the claim (and \<open>PROTO_MAX_LINE\<close>, 256 with the end of line) allows: the assembler
  calls \<^verbatim>\<open>process_command\<close> on all 255 bytes and sends no NACK, in both variants of the
  loop. One more byte, and the line is refused as the claim says.
\<close>

theorem C6_line_of_255_bytes_is_dispatched:
  "snd (COMM_Process (replicate 255 (CHR ''A'') @ [CHR 0x0D, CHR 0x0A]) COMM_Init) =
     [Dispatched (replicate 255 (CHR ''A''))] \<and>
   snd (snd (COMM_Process_Budgeted (\<lambda>k. 0) 0
               (replicate 255 (CHR ''A'') @ [CHR 0x0D, CHR 0x0A]) COMM_Init)) =
     [Dispatched (replicate 255 (CHR ''A''))] \<and>
   snd (COMM_Process (replicate 256 (CHR ''A'') @ [CHR 0x0D, CHR 0x0A]) COMM_Init) =
     [Sent NACK_LINE_TOO_LONG]"
proof -
  have init: "line_len COMM_Init = 0" "\<not> line_truncated COMM_Init"
    "length (line_buffer COMM_Init) = LINE_BUFFER_SIZE"
    by (simp_all add: COMM_Init_def)
  have crlf: "COMM_Process (p @ [CHR 0x0D, CHR 0x0A]) st = COMM_Process (p @ [CHR 0x0D]) st" for p st
    using comm_crlf by (simp add: COMM_Process_append)
  have "snd (COMM_Process (replicate 255 (CHR ''A'') @ [CHR 0x0D]) COMM_Init) =
          [Dispatched (replicate 255 (CHR ''A''))]"
    by (rule comm_line_dispatched[OF _ _ _ init])
       (simp_all add: is_eol_def LINE_BUFFER_SIZE_def PROTO_MAX_LINE_def)
  then have a: "snd (COMM_Process (replicate 255 (CHR ''A'') @ [CHR 0x0D, CHR 0x0A]) COMM_Init) =
          [Dispatched (replicate 255 (CHR ''A''))]"
    by (simp only: crlf)
  have "budgeted_loop (\<lambda>k. 0) 0 0 0 (replicate 255 (CHR ''A'') @ [CHR 0x0D, CHR 0x0A]) COMM_Init =
          ([], fst (COMM_Process (replicate 255 (CHR ''A'') @ [CHR 0x0D, CHR 0x0A]) COMM_Init),
           snd (COMM_Process (replicate 255 (CHR ''A'') @ [CHR 0x0D, CHR 0x0A]) COMM_Init))"
    by (rule budgeted_within_budget)
       (simp_all add: a COMM_MAX_MS_PER_CALL_def COMM_MAX_LINES_PER_CALL_def)
  then have b: "snd (snd (COMM_Process_Budgeted (\<lambda>k. 0) 0
               (replicate 255 (CHR ''A'') @ [CHR 0x0D, CHR 0x0A]) COMM_Init)) =
          [Dispatched (replicate 255 (CHR ''A''))]"
    by (simp add: COMM_Process_Budgeted_def a)
  have "\<exists>buf. COMM_Process (replicate 256 (CHR ''A'') @ [CHR 0x0D]) COMM_Init =
          (COMM_Init\<lparr>line_buffer := buf, line_len := 0, line_truncated := False\<rparr>,
           [Sent NACK_LINE_TOO_LONG])"
    by (rule comm_long_line[OF _ _ init(1,2)])
       (simp_all add: is_eol_def LINE_BUFFER_SIZE_def PROTO_MAX_LINE_def)
  then have c: "snd (COMM_Process (replicate 256 (CHR ''A'') @ [CHR 0x0D, CHR 0x0A]) COMM_Init) =
          [Sent NACK_LINE_TOO_LONG]"
    unfolding crlf by auto
  from a b c show ?thesis by simp
qed

subsection \<open>BLOCKS transport: the window bounds the inflight blocks\<close>

lemma window_entry_upd [simp]: "window (entry_upd e f s) = window s"
  by (simp add: entry_upd_def)

lemma window_send_block [simp]: "window (send_block now e s) = window s"
  by (simp add: send_block_def Let_def)

lemma window_inflight_add [simp]: "window (inflight_add e s) = window s"
  by (simp add: inflight_add_def)

lemma window_inflight_remove_index [simp]: "window (inflight_remove_index i s) = window s"
  by (simp add: inflight_remove_index_def)

lemma inflight_count_remove_index:
  "inflight_count (inflight_remove_index i s) \<le> inflight_count s"
  by (simp add: inflight_remove_index_def)

lemma window_drain_queue [simp]: "window (drain_queue s) = window s"
proof (induction s rule: drain_queue.induct)
  case (1 s)
  show ?case
  proof (cases "queue_empty s")
    case True
    then show ?thesis by (simp add: drain_queue.simps[of s])
  next
    case False
    have "window (snd (queue_pop s)) = window s" by (simp add: queue_pop_def)
    with False "1.IH" show ?thesis by (simp add: drain_queue.simps[of s])
  qed
qed

lemma window_fold_entry_upd [simp]:
  "window (fold (\<lambda>i. entry_upd (g i) f) is s) = window s"
  by (induction "is" arbitrary: s) simp_all

lemma window_abort_all [simp]: "window (abort_all s) = window s"
  by (simp add: abort_all_def Let_def)

lemma queue_pop_keeps:
  assumes "queue_pop s = (r, s1)"
  shows "inflight_count s1 = inflight_count s" and "window s1 = window s"
  using assms by (auto simp add: queue_pop_def split: if_splits)

lemma queue_pop_nonempty:
  "\<not> queue_empty s \<Longrightarrow> \<exists>e s1. queue_pop s = (Some e, s1)"
  by (simp add: queue_pop_def)

lemma inflight_add_count:
  "inflight_count (inflight_add e s) =
     (if inflight_count s < TB_MAX_INFLIGHT then inflight_count s + 1 else inflight_count s)"
  by (simp add: inflight_add_def)

lemma pump_send_respects:
  "window_respected s \<Longrightarrow> window_respected (pump_send now s)"
proof (induction now s rule: pump_send.induct)
  case (1 now s)
  show ?case
  proof (cases "inflight_count s < unat (window s) \<and> \<not> queue_empty s")
    case False
    then have "pump_send now s = s" by (subst pump_send.simps) (simp only: if_False)
    then show ?thesis using "1.prems" by simp
  next
    case True
    then obtain e s1 where pop: "queue_pop s = (Some e, s1)"
      using queue_pop_nonempty by blast
    define s2 where "s2 = inflight_add e (send_block now e s1)"
    have c: "inflight_count s1 = inflight_count s" and w: "window s1 = window s"
      using queue_pop_keeps[OF pop] by simp_all
    have "window_respected s2"
      using True "1.prems"
      by (auto simp add: window_respected_def s2_def inflight_add_count c w)
    then have "window_respected (pump_send now s2)"
      unfolding s2_def using True pop "1.IH" by auto
    then show ?thesis
      using True pop by (simp add: pump_send.simps[of now s] s2_def)
  qed
qed

lemma pump_timeouts_from_shrinks:
  "inflight_count (pump_timeouts_from now i s) \<le> inflight_count s \<and>
   window (pump_timeouts_from now i s) = window s"
proof (induction now i s rule: pump_timeouts_from.induct)
  case (1 now i s)
  show ?case
  proof (cases "i < inflight_count s")
    case False
    then show ?thesis by (simp add: pump_timeouts_from.simps[of now i s])
  next
    case True
    define e where "e = inflight s ! i"
    define x where "x = queue s ! e"
    consider (gone) "\<not> e_inflight x"
      | (retry) "e_inflight x" "now - e_t_last_tx_ms x \<ge> PROTO_BLOCK_TIMEOUT_MS"
          "e_retries x < max_retries s"
      | (abort) "e_inflight x" "now - e_t_last_tx_ms x \<ge> PROTO_BLOCK_TIMEOUT_MS"
          "\<not> e_retries x < max_retries s"
      | (wait) "e_inflight x" "\<not> now - e_t_last_tx_ms x \<ge> PROTO_BLOCK_TIMEOUT_MS"
      by blast
    then show ?thesis
    proof cases
      case gone
      have "inflight_count (pump_timeouts_from now i (inflight_remove_index i s))
              \<le> inflight_count (inflight_remove_index i s) \<and>
            window (pump_timeouts_from now i (inflight_remove_index i s)) =
              window (inflight_remove_index i s)"
        using True gone by (intro "1.IH"(1)[of e x]) (simp_all add: e_def x_def)
      then show ?thesis
        using True gone inflight_count_remove_index[of i s]
        by (simp add: pump_timeouts_from.simps[of now i s] e_def[symmetric] x_def[symmetric]
            Let_def)
    next
      case retry
      define s1 where
        "s1 = send_block now e (entry_upd e (\<lambda>x. x\<lparr>e_retries := e_retries x + 1\<rparr>) s)"
      have "inflight_count (pump_timeouts_from now (i + 1) s1) \<le> inflight_count s1 \<and>
            window (pump_timeouts_from now (i + 1) s1) = window s1"
        unfolding s1_def using True retry by (intro "1.IH"(2)[of e x]) (simp_all add: e_def x_def)
      then show ?thesis
        using True retry
        by (simp add: pump_timeouts_from.simps[of now i s] e_def[symmetric] x_def[symmetric]
            Let_def s1_def)
    next
      case abort
      define s1 where "s1 = abort_all s"
      define s2 where "s2 = s1\<lparr>tb_wire := tb_wire s1 @ [BM_EndAborted 400]\<rparr>"
      have "inflight_count (pump_timeouts_from now i s2) \<le> inflight_count s2 \<and>
            window (pump_timeouts_from now i s2) = window s2"
        unfolding s2_def s1_def using True abort
        by (intro "1.IH"(3)[of e x]) (simp_all add: e_def x_def)
      then show ?thesis
        using True abort
        by (simp add: pump_timeouts_from.simps[of now i s] e_def[symmetric] x_def[symmetric]
            Let_def s1_def s2_def)
    next
      case wait
      have "inflight_count (pump_timeouts_from now (i + 1) s) \<le> inflight_count s \<and>
            window (pump_timeouts_from now (i + 1) s) = window s"
        using True wait by (intro "1.IH"(4)[of e x]) (simp_all add: e_def x_def)
      then show ?thesis
        using True wait
        by (simp add: pump_timeouts_from.simps[of now i s] e_def[symmetric] x_def[symmetric]
            Let_def)
    qed
  qed
qed

lemma shrink_respects:
  "window_respected s \<Longrightarrow> inflight_count s' \<le> inflight_count s \<Longrightarrow> window s' = window s \<Longrightarrow>
   window_respected s'"
  by (simp add: window_respected_def)

lemma TB_Pump_respects: "window_respected s \<Longrightarrow> window_respected (TB_Pump now s)"
  using pump_timeouts_from_shrinks[of now 0 "pump_send now s"] pump_send_respects[of s now]
  by (auto simp add: TB_Pump_def pump_timeouts_def intro: shrink_respects)

lemma TB_Init_respects: "window_respected (TB_Init w bl mr s)"
proof -
  have "(8 :: nat) \<le> unat (8 :: u16)" by simp
  moreover have "w \<noteq> 0 \<Longrightarrow> 0 \<le> unat w" by simp
  ultimately show ?thesis
    by (simp add: TB_Init_def window_respected_def TB_MAX_INFLIGHT_def)
qed

lemma TB_BeginBurst_respects: "window_respected (TB_BeginBurst bid s)"
  by (simp add: TB_BeginBurst_def window_respected_def)

lemma TB_EndBurst_respects: "window_respected s \<Longrightarrow> window_respected (TB_EndBurst s)"
  by (simp add: TB_EndBurst_def window_respected_def)

lemma TB_EnqueueBlock_respects:
  "window_respected s \<Longrightarrow> window_respected (snd (TB_EnqueueBlock b s))"
  by (auto simp add: TB_EnqueueBlock_def window_respected_def queue_push_def entry_upd_def
      split: option.splits if_splits prod.splits)

lemma TB_OnAckBlk_respects: "window_respected s \<Longrightarrow> window_respected (TB_OnAckBlk blk s)"
  by (auto simp add: TB_OnAckBlk_def inflight_remove_index_def window_respected_def
      split: option.splits)

lemma TB_OnNackBlk_respects:
  "window_respected s \<Longrightarrow> window_respected (TB_OnNackBlk now blk code s)"
  by (auto simp add: TB_OnNackBlk_def window_respected_def Let_def split: option.splits)

lemma tb_step_respects: "window_respected s \<Longrightarrow> window_respected (tb_step c s)"
  by (cases c)
     (simp_all add: TB_Init_respects TB_BeginBurst_respects TB_EndBurst_respects
       TB_EnqueueBlock_respects TB_Pump_respects TB_OnAckBlk_respects TB_OnNackBlk_respects)

lemma fold_tb_step_respects:
  "window_respected s \<Longrightarrow> window_respected (fold tb_step calls s)"
  by (induction calls arbitrary: s) (simp_all add: tb_step_respects)

text \<open>
  C8: after any sequence of calls of TB\_Init, TB\_BeginBurst, TB\_EnqueueBlock, TB\_Pump,
  TB\_OnAckBlk, TB\_OnNackBlk and TB\_EndBurst, with any arguments, the number of inflight
  blocks is at most the window and at most 8.
\<close>

theorem C8_inflight_within_window:
  "inflight_count (tb_run calls) \<le> unat (window (tb_run calls)) \<and>
   inflight_count (tb_run calls) \<le> 8"
proof -
  have "window_respected tb_zero" by (simp add: window_respected_def tb_zero_def)
  then have "window_respected (tb_run calls)"
    unfolding tb_run_def by (rule fold_tb_step_respects)
  then show ?thesis by (simp add: window_respected_def TB_MAX_INFLIGHT_def)
qed

subsection \<open>The median\<close>

lemma swap_length [simp]: "length (swap_int16 a b arr) = length arr"
  by (simp add: swap_int16_def)

lemma swap_mset:
  "a < length arr \<Longrightarrow> b < length arr \<Longrightarrow> mset (swap_int16 a b arr) = mset arr"
  unfolding swap_int16_def by (rule mset_swap)

lemma swap_nth:
  "a < length arr \<Longrightarrow> b < length arr \<Longrightarrow> x < length arr \<Longrightarrow>
   swap_int16 a b arr ! x = (if x = b then arr ! a else if x = a then arr ! b else arr ! x)"
  by (simp add: swap_int16_def nth_list_update)

lemma isolatedD:
  "isolated arr lo hi \<Longrightarrow> i < length arr \<Longrightarrow> j < length arr \<Longrightarrow>
   (i < lo \<and> lo \<le> j) \<or> (i \<le> hi \<and> hi < j) \<Longrightarrow> sint (arr ! i) \<le> sint (arr ! j)"
  unfolding isolated_def by blast

lemma isolated_swap:
  assumes iso: "isolated arr lo hi"
    and ab: "lo \<le> a" "a \<le> hi" "lo \<le> b" "b \<le> hi" and hi: "hi < length arr"
  shows "isolated (swap_int16 a b arr) lo hi"
proof -
  define p where "p x = (if x = b then a else if x = a then b else x)" for x
  have nth: "swap_int16 a b arr ! x = arr ! p x" if "x < length arr" for x
    using that ab hi by (simp add: swap_nth p_def)
  have len: "p x < length arr" if "x < length arr" for x
    using that ab hi by (simp add: p_def)
  have pos: "(p i < lo \<and> lo \<le> p j) \<or> (p i \<le> hi \<and> hi < p j)"
    if "(i < lo \<and> lo \<le> j) \<or> (i \<le> hi \<and> hi < j)" for i j
    using that ab by (auto simp add: p_def)
  show ?thesis
    unfolding isolated_def
  proof (intro allI impI)
    fix i j
    assume i: "i < length (swap_int16 a b arr)" and j: "j < length (swap_int16 a b arr)"
      and c: "(i < lo \<and> lo \<le> j) \<or> (i \<le> hi \<and> hi < j)"
    have "p i < length arr" "p j < length arr" using len i j by simp_all
    then have "sint (arr ! p i) \<le> sint (arr ! p j)"
      using iso[unfolded isolated_def, rule_format, of "p i" "p j"] pos[OF c] by blast
    then show "sint (swap_int16 a b arr ! i) \<le> sint (swap_int16 a b arr ! j)"
      using i j by (simp add: nth)
  qed
qed

lemma part_inv_lt:
  assumes "part_inv pivot low high i j arr" "j < high" "sint (arr ! j) < sint pivot"
  shows "part_inv pivot low high (i + 1) (j + 1) (swap_int16 i j arr)"
proof -
  from assms(1) have b: "low \<le> i" "i \<le> j" "j \<le> high" "high < length arr"
    and iso: "isolated arr low high"
    and lt: "\<And>x. low \<le> x \<Longrightarrow> x < i \<Longrightarrow> sint (arr ! x) < sint pivot"
    and ge: "\<And>x. i \<le> x \<Longrightarrow> x < j \<Longrightarrow> sint pivot \<le> sint (arr ! x)"
    and pv: "arr ! high = pivot"
    by (simp_all add: part_inv_def)
  have il: "i < length arr" and jl: "j < length arr" using b assms(2) by simp_all
  have iso': "isolated (swap_int16 i j arr) low high"
    using iso b assms(2) by (intro isolated_swap) simp_all
  have lt': "sint (swap_int16 i j arr ! x) < sint pivot" if "low \<le> x" "x < i + 1" for x
  proof (cases "x = i")
    case True
    then show ?thesis using assms(3) il jl by (simp add: swap_nth)
  next
    case False
    then have "x < i" using that by simp
    then show ?thesis using lt[of x] that b il jl by (simp add: swap_nth)
  qed
  have ge': "sint pivot \<le> sint (swap_int16 i j arr ! x)" if "i + 1 \<le> x" "x < j + 1" for x
  proof (cases "x = j")
    case True
    then have "i < j" using that by simp
    then show ?thesis using ge[of i] True il jl by (simp add: swap_nth)
  next
    case False
    then have "i < x" "x < j" using that by simp_all
    then show ?thesis using ge[of x] il jl by (simp add: swap_nth)
  qed
  have pv': "swap_int16 i j arr ! high = pivot"
    using pv b assms(2) il jl by (simp add: swap_nth)
  show ?thesis
    unfolding part_inv_def using b assms(2) iso' lt' ge' pv' by simp
qed

lemma part_inv_ge:
  assumes "part_inv pivot low high i j arr" "j < high" "\<not> sint (arr ! j) < sint pivot"
  shows "part_inv pivot low high i (j + 1) arr"
proof -
  have "sint pivot \<le> sint (arr ! x)" if "i \<le> x" "x < j + 1" for x
  proof (cases "x = j")
    case True
    then show ?thesis using assms(3) by simp
  next
    case False
    then show ?thesis using assms(1) that by (simp add: part_inv_def)
  qed
  then show ?thesis using assms(1,2) by (simp add: part_inv_def)
qed

lemma partition_loop_spec:
  "part_inv pivot low high i j arr \<Longrightarrow>
   part_inv pivot low high (fst (partition_loop pivot j high i arr)) high
     (snd (partition_loop pivot j high i arr)) \<and>
   length (snd (partition_loop pivot j high i arr)) = length arr \<and>
   mset (snd (partition_loop pivot j high i arr)) = mset arr"
proof (induction pivot j high i arr rule: partition_loop.induct)
  case (1 pivot j high i arr)
  show ?case
  proof (cases "j < high")
    case False
    then have eq: "partition_loop pivot j high i arr = (i, arr)"
      by (subst partition_loop.simps) simp
    have "j = high" using False "1.prems" by (simp add: part_inv_def)
    with "1.prems" have "part_inv pivot low high i high arr" by simp
    then show ?thesis unfolding eq by simp
  next
    case True
    have b: "i < length arr" "j < length arr"
      using True "1.prems" by (simp_all add: part_inv_def)
    show ?thesis
    proof (cases "sint (arr ! j) < sint pivot")
      case lt: True
      have eq: "partition_loop pivot j high i arr =
                  partition_loop pivot (j + 1) high (i + 1) (swap_int16 i j arr)"
        using True lt by (subst partition_loop.simps) simp
      have "part_inv pivot low high (i + 1) (j + 1) (swap_int16 i j arr)"
        using "1.prems" True lt by (rule part_inv_lt)
      then show ?thesis
        unfolding eq using "1.IH"(1)[OF True lt] b by (simp add: swap_mset)
    next
      case ge: False
      have eq: "partition_loop pivot j high i arr = partition_loop pivot (j + 1) high i arr"
        using True ge by (subst partition_loop.simps) simp
      have "part_inv pivot low high i (j + 1) arr"
        using "1.prems" True ge by (rule part_inv_ge)
      then show ?thesis
        unfolding eq using "1.IH"(2)[OF True ge] by simp
    qed
  qed
qed

lemma partition_step_pivoted:
  assumes iso: "isolated arr low high" and lh: "low < high" "high < length arr"
  defines "pivot_idx \<equiv> low + (high - low) div 2"
  defines "r \<equiv> partition_loop (arr ! pivot_idx) low high low (swap_int16 pivot_idx high arr)"
  defines "arr3 \<equiv> swap_int16 (fst r) high (snd r)"
  shows "pivoted arr3 low high (fst r) \<and> length arr3 = length arr \<and> mset arr3 = mset arr"
proof -
  define pivot where "pivot = arr ! pivot_idx"
  define arr1 where "arr1 = swap_int16 pivot_idx high arr"
  define i where "i = fst r"
  define arr2 where "arr2 = snd r"
  have pi: "low \<le> pivot_idx" "pivot_idx \<le> high" "pivot_idx < length arr"
    using lh by (simp_all add: pivot_idx_def)
  have iso1: "isolated arr1 low high"
    unfolding arr1_def using iso pi lh by (intro isolated_swap) simp_all
  have pv1: "arr1 ! high = pivot"
    using pi lh by (simp add: arr1_def pivot_def swap_nth)
  have "part_inv pivot low high low low arr1"
    using lh iso1 pv1 by (simp add: part_inv_def arr1_def)
  then have "part_inv pivot low high i high arr2 \<and> length arr2 = length arr1 \<and>
             mset arr2 = mset arr1"
    unfolding i_def arr2_def r_def pivot_def arr1_def by (rule partition_loop_spec)
  then have inv: "part_inv pivot low high i high arr2" and len2: "length arr2 = length arr"
    and ms2: "mset arr2 = mset arr"
    using pi lh by (simp_all add: arr1_def swap_mset)
  from inv have b: "low \<le> i" "i \<le> high" "high < length arr2"
    and iso2: "isolated arr2 low high"
    and lt: "\<And>x. low \<le> x \<Longrightarrow> x < i \<Longrightarrow> sint (arr2 ! x) < sint pivot"
    and ge: "\<And>x. i \<le> x \<Longrightarrow> x < high \<Longrightarrow> sint pivot \<le> sint (arr2 ! x)"
    and pv2: "arr2 ! high = pivot"
    by (simp_all add: part_inv_def)
  have a3: "arr3 = swap_int16 i high arr2" by (simp add: arr3_def i_def arr2_def)
  have il: "i < length arr2" using b by simp
  have iso3: "isolated arr3 low high"
    unfolding a3 using iso2 b by (intro isolated_swap) simp_all
  have at_i: "arr3 ! i = pivot" using il b pv2 by (simp add: a3 swap_nth)
  have lt3: "sint (arr3 ! x) < sint (arr3 ! i)" if "low \<le> x" "x < i" for x
    using lt[of x] that il b unfolding at_i by (simp add: a3 swap_nth)
  have ge3: "sint (arr3 ! i) \<le> sint (arr3 ! x)" if "i < x" "x \<le> high" for x
  proof (cases "x = high")
    case True
    then show ?thesis using ge[of i] that il b unfolding at_i by (simp add: a3 swap_nth)
  next
    case False
    then have "x < high" using that by simp
    then show ?thesis using ge[of x] that il b unfolding at_i by (simp add: a3 swap_nth)
  qed
  have "pivoted arr3 low high i"
    unfolding pivoted_def using b iso3 lt3 ge3 by (simp add: a3)
  moreover have "length arr3 = length arr" by (simp add: a3 len2)
  moreover have "mset arr3 = mset arr" using il b by (simp add: a3 swap_mset ms2)
  ultimately show ?thesis by (simp add: i_def)
qed

lemma pivoted_selected:
  assumes "pivoted arr lo hi p"
  shows "selected arr p"
  unfolding selected_def
proof (intro allI impI conjI)
  from assms have b: "lo \<le> p" "p \<le> hi" "hi < length arr"
    and iso0: "isolated arr lo hi"
    and lt: "\<And>x. lo \<le> x \<Longrightarrow> x < p \<Longrightarrow> sint (arr ! x) < sint (arr ! p)"
    and ge: "\<And>x. p < x \<Longrightarrow> x \<le> hi \<Longrightarrow> sint (arr ! p) \<le> sint (arr ! x)"
    by (simp_all add: pivoted_def)
  have pl: "p < length arr" using b by simp
  {
    fix i assume i: "i < length arr" and ip: "i < p"
    show "sint (arr ! i) \<le> sint (arr ! p)"
    proof (cases "i < lo")
      case True
      then show ?thesis using isolatedD[OF iso0 i pl] b by simp
    next
      case False
      then show ?thesis using lt[of i] ip by simp
    qed
  }
  {
    fix i assume i: "i < length arr" and pi: "p < i"
    show "sint (arr ! p) \<le> sint (arr ! i)"
    proof (cases "hi < i")
      case True
      then show ?thesis using isolatedD[OF iso0 pl i] b by simp
    next
      case False
      then show ?thesis using ge[of i] pi by simp
    qed
  }
qed

lemma pivoted_left:
  assumes "pivoted arr lo hi p" "lo < p"
  shows "isolated arr lo (p - 1)"
  unfolding isolated_def
proof (intro allI impI)
  fix i j
  assume i: "i < length arr" and j: "j < length arr"
    and c: "(i < lo \<and> lo \<le> j) \<or> (i \<le> p - 1 \<and> p - 1 < j)"
  from assms(1) have b: "lo \<le> p" "p \<le> hi" "hi < length arr"
    and iso0: "isolated arr lo hi"
    and lt: "\<And>x. lo \<le> x \<Longrightarrow> x < p \<Longrightarrow> sint (arr ! x) < sint (arr ! p)"
    and ge: "\<And>x. p < x \<Longrightarrow> x \<le> hi \<Longrightarrow> sint (arr ! p) \<le> sint (arr ! x)"
    by (simp_all add: pivoted_def)
  note iso = isolatedD[OF iso0]
  from c show "sint (arr ! i) \<le> sint (arr ! j)"
  proof
    assume "i < lo \<and> lo \<le> j"
    then show ?thesis using iso[OF i j] by simp
  next
    assume h: "i \<le> p - 1 \<and> p - 1 < j"
    then have ip: "i < p" and pj: "p \<le> j" using assms(2) by arith+
    show ?thesis
    proof (cases "hi < j")
      case True
      then show ?thesis using iso[OF i j] ip b by simp
    next
      case False
      then have jh: "j \<le> hi" by simp
      have pj': "sint (arr ! p) \<le> sint (arr ! j)"
        using ge[of j] pj jh by (cases "j = p") simp_all
      show ?thesis
      proof (cases "i < lo")
        case True
        then show ?thesis using iso[OF i j] pj b by simp
      next
        case False
        then have "sint (arr ! i) < sint (arr ! p)" using lt[of i] ip by simp
        then show ?thesis using pj' by simp
      qed
    qed
  qed
qed

lemma pivoted_right:
  assumes "pivoted arr lo hi p" "p < hi"
  shows "isolated arr (p + 1) hi"
  unfolding isolated_def
proof (intro allI impI)
  fix i j
  assume i: "i < length arr" and j: "j < length arr"
    and c: "(i < p + 1 \<and> p + 1 \<le> j) \<or> (i \<le> hi \<and> hi < j)"
  from assms(1) have b: "lo \<le> p" "p \<le> hi" "hi < length arr"
    and iso0: "isolated arr lo hi"
    and lt: "\<And>x. lo \<le> x \<Longrightarrow> x < p \<Longrightarrow> sint (arr ! x) < sint (arr ! p)"
    and ge: "\<And>x. p < x \<Longrightarrow> x \<le> hi \<Longrightarrow> sint (arr ! p) \<le> sint (arr ! x)"
    by (simp_all add: pivoted_def)
  note iso = isolatedD[OF iso0]
  from c show "sint (arr ! i) \<le> sint (arr ! j)"
  proof
    assume "i \<le> hi \<and> hi < j"
    then show ?thesis using iso[OF i j] by simp
  next
    assume h: "i < p + 1 \<and> p + 1 \<le> j"
    then have ip: "i \<le> p" and pj: "p < j" by simp_all
    show ?thesis
    proof (cases "hi < j")
      case True
      then show ?thesis using iso[OF i j] ip b by simp
    next
      case False
      then have pj': "sint (arr ! p) \<le> sint (arr ! j)" using ge[of j] pj by simp
      show ?thesis
      proof (cases "i < lo")
        case True
        then show ?thesis using iso[OF i j] pj b by simp
      next
        case False
        then have "sint (arr ! i) \<le> sint (arr ! p)"
          using lt[of i] ip by (cases "i = p") simp_all
        then show ?thesis using pj' by simp
      qed
    qed
  qed
qed

lemma isolated_point:
  assumes "isolated arr k k" "k < length arr"
  shows "selected arr k"
  unfolding selected_def
proof (intro allI impI conjI)
  fix i assume i: "i < length arr"
  show "i < k \<Longrightarrow> sint (arr ! i) \<le> sint (arr ! k)"
    using isolatedD[OF assms(1) i assms(2)] by simp
  show "k < i \<Longrightarrow> sint (arr ! k) \<le> sint (arr ! i)"
    using isolatedD[OF assms(1) assms(2) i] by simp
qed

lemma quickselect_spec:
  "low \<le> k \<Longrightarrow> k \<le> high \<Longrightarrow> high < length arr \<Longrightarrow> isolated arr low high \<Longrightarrow>
   length (snd (quickselect_int16 arr low high k)) = length arr \<and>
   mset (snd (quickselect_int16 arr low high k)) = mset arr \<and>
   fst (quickselect_int16 arr low high k) = snd (quickselect_int16 arr low high k) ! k \<and>
   selected (snd (quickselect_int16 arr low high k)) k"
proof (induction arr low high k rule: quickselect_int16.induct)
  case (1 arr low high k)
  have le: "low \<le> high" using "1.prems" by simp
  show ?case
  proof (cases "low = high")
    case True
    then have eq: "quickselect_int16 arr low high k = (arr ! low, arr)"
      by (subst quickselect_int16.simps) simp
    have k: "k = low" using True "1.prems" by simp
    have "selected arr k"
      using "1.prems" True k by (intro isolated_point) simp_all
    then show ?thesis unfolding eq using k by simp
  next
    case False
    define pivot_idx where "pivot_idx = low + (high - low) div 2"
    define r where
      "r = partition_loop (arr ! pivot_idx) low high low (swap_int16 pivot_idx high arr)"
    define i where "i = fst r"
    define arr3 where "arr3 = swap_int16 i high (snd r)"
    have piv: "pivoted arr3 low high i" and len3: "length arr3 = length arr"
      and ms3: "mset arr3 = mset arr"
      using partition_step_pivoted[of arr low high] "1.prems" False le
      unfolding arr3_def i_def r_def pivot_idx_def by simp_all
    have ib: "low \<le> i" "i \<le> high" using piv by (simp_all add: pivoted_def)
    have eq: "quickselect_int16 arr low high k =
                (if k = i then (arr3 ! i, arr3)
                 else if k < i then
                   (if i = 0 then (INT16_MIN, arr3) else quickselect_int16 arr3 low (i - 1) k)
                 else quickselect_int16 arr3 (i + 1) high k)"
      using le False
      by (subst quickselect_int16.simps)
         (simp add: Let_def arr3_def i_def r_def pivot_idx_def)
    show ?thesis
    proof (cases "k = i")
      case True
      then show ?thesis
        unfolding eq using pivoted_selected[OF piv] len3 ms3 by simp
    next
      case ne: False
      show ?thesis
      proof (cases "k < i")
        case lt: True
        then have nz: "i \<noteq> 0" by simp
        have iso: "isolated arr3 low (i - 1)"
          using piv lt "1.prems"(1) by (intro pivoted_left) simp_all
        note IH = "1.IH"(1)[OF le False refl refl refl refl refl refl,
            folded pivot_idx_def, folded r_def, folded i_def, folded arr3_def]
        have "i - 1 < length arr3" using ib "1.prems"(3) len3 by arith
        moreover have "k \<le> i - 1" using lt by arith
        ultimately have
             "length (snd (quickselect_int16 arr3 low (i - 1) k)) = length arr3 \<and>
              mset (snd (quickselect_int16 arr3 low (i - 1) k)) = mset arr3 \<and>
              fst (quickselect_int16 arr3 low (i - 1) k) =
                snd (quickselect_int16 arr3 low (i - 1) k) ! k \<and>
              selected (snd (quickselect_int16 arr3 low (i - 1) k)) k"
          using ne lt nz "1.prems"(1) iso by (intro IH)
        then show ?thesis
          unfolding eq using ne lt nz len3 ms3 by simp
      next
        case gt: False
        then have ik: "i < k" using ne by simp
        have iso: "isolated arr3 (i + 1) high"
          using piv ik "1.prems"(2) by (intro pivoted_right) simp_all
        note IH = "1.IH"(2)[OF le False refl refl refl refl refl refl,
            folded pivot_idx_def, folded r_def, folded i_def, folded arr3_def]
        have "high < length arr3" using "1.prems"(3) len3 by simp
        moreover have "i + 1 \<le> k" using ik by arith
        ultimately have
             "length (snd (quickselect_int16 arr3 (i + 1) high k)) = length arr3 \<and>
              mset (snd (quickselect_int16 arr3 (i + 1) high k)) = mset arr3 \<and>
              fst (quickselect_int16 arr3 (i + 1) high k) =
                snd (quickselect_int16 arr3 (i + 1) high k) ! k \<and>
              selected (snd (quickselect_int16 arr3 (i + 1) high k)) k"
          using ne gt "1.prems"(2) iso by (intro IH)
        then show ?thesis
          unfolding eq using ne gt len3 ms3 by simp
      qed
    qed
  qed
qed

lemma selected_sorted_nth:
  assumes "selected arr k" "k < length arr"
  shows "sort (map sint arr) ! k = sint (arr ! k)"
proof -
  define a where "a = map sint arr"
  define s where "s = sort (take k a) @ a ! k # sort (drop (Suc k) a)"
  have ka: "k < length a" using assms(2) by (simp add: a_def)
  have before: "x \<le> a ! k" if "x \<in> set (take k a)" for x
  proof -
    from that obtain i where "i < length (take k a)" "x = take k a ! i"
      by (auto simp add: in_set_conv_nth)
    then have "i < k" "x = a ! i" "i < length arr" using ka by (simp_all add: a_def)
    then show ?thesis using assms unfolding selected_def a_def by simp
  qed
  have after: "a ! k \<le> y" if "y \<in> set (drop (Suc k) a)" for y
  proof -
    from that obtain i where "i < length (drop (Suc k) a)" "y = drop (Suc k) a ! i"
      by (auto simp add: in_set_conv_nth)
    then have "k < Suc k + i" "y = a ! (Suc k + i)" "Suc k + i < length arr"
      using ka by (simp_all add: a_def)
    then show ?thesis using assms unfolding selected_def a_def by simp
  qed
  have "a = take k a @ a ! k # drop (Suc k) a" using ka by (rule id_take_nth_drop)
  then have "mset a = mset (take k a @ a ! k # drop (Suc k) a)" by simp
  then have ms: "mset s = mset a" by (simp add: s_def)
  have "sorted s"
    unfolding s_def using before after
    by (auto simp add: sorted_append intro: order_trans)
  with ms have "sort a = s" by (rule properties_for_sort)
  moreover have "s ! k = a ! k"
    using ka by (simp add: s_def nth_append)
  ultimately show ?thesis using ka by (simp add: a_def)
qed

lemma sort_cong_mset:
  assumes "mset xs = mset ys"
  shows "sort (map sint xs) = sort (map sint ys)"
proof -
  have "mset (sort (map sint ys)) = mset (map sint xs)" using assms by simp
  then show ?thesis by (rule properties_for_sort) simp
qed

lemma isolated_whole: "isolated arr 0 (length arr - 1)"
  unfolding isolated_def by auto

lemma selected_isolated_right:
  assumes "selected arr k" "k < length arr"
  shows "isolated arr (k + 1) (length arr - 1)"
  unfolding isolated_def
proof (intro allI impI)
  fix i j
  assume i: "i < length arr" and j: "j < length arr"
    and c: "(i < k + 1 \<and> k + 1 \<le> j) \<or> (i \<le> length arr - 1 \<and> length arr - 1 < j)"
  then have ik: "i \<le> k" and kj: "k < j" by auto
  have "sint (arr ! i) \<le> sint (arr ! k)"
    using assms i ik unfolding selected_def by (cases "i = k") simp_all
  moreover have "sint (arr ! k) \<le> sint (arr ! j)"
    using assms j kj unfolding selected_def by simp
  ultimately show "sint (arr ! i) \<le> sint (arr ! j)" by simp
qed

lemma c_div_2_range:
  assumes "- 32768 \<le> a" "a < 32768" "- 32768 \<le> b" "b < 32768"
  shows "- 32768 \<le> c_div (a + b) 2 \<and> c_div (a + b) 2 < 32768"
proof (cases "a + b < 0")
  case True
  then have "c_div (a + b) 2 = - ((- (a + b)) div 2)" by (simp add: c_div_def)
  moreover have "0 \<le> (- (a + b)) div 2" using True by simp
  moreover have "(- (a + b)) div 2 \<le> 32768" using assms by linarith
  ultimately show ?thesis by linarith
next
  case False
  then have "c_div (a + b) 2 = (a + b) div 2" by (cases "a + b = 0") (simp_all add: c_div_def)
  moreover have "0 \<le> (a + b) div 2" using False by simp
  moreover have "(a + b) div 2 < 32768" using assms by linarith
  ultimately show ?thesis by linarith
qed

lemma sint_i16_range: "- 32768 \<le> sint (w :: i16) \<and> sint w < 32768"
  using sint_ge[of w] sint_lt[of w] by simp

lemma sint_word_of_int_i16:
  "- 32768 \<le> x \<Longrightarrow> x < 32768 \<Longrightarrow> sint (word_of_int x :: i16) = x"
  by (simp add: signed_of_int signed_take_bit_int_eq_self)

text \<open>
  C9: on an array of \<open>n\<close> values calculate\_median\_int16 returns 0 for \<open>n = 0\<close>; for odd
  \<open>n\<close> the element of rank \<open>n div 2\<close> of the sorted values; and for even \<open>n\<close> the sum of
  the elements of ranks \<open>n div 2 - 1\<close> and \<open>n div 2\<close> divided by 2 with truncation towards
  zero.
\<close>

theorem C9_median_by_quickselect:
  "sint (calculate_median_int16 data (length data)) =
     (if data = [] then 0
      else if odd (length data) then sort (map sint data) ! (length data div 2)
      else c_div (sort (map sint data) ! (length data div 2 - 1) +
                  sort (map sint data) ! (length data div 2)) 2)"
proof -
  define n where "n = length data"
  consider (zero) "n = 0" | (one) "n = 1" | (odd) "1 < n" "odd n" | (even) "1 < n" "even n"
    by (cases "n = 0"; cases "n = 1"; cases "odd n") auto
  then show ?thesis
  proof cases
    case zero
    then show ?thesis by (simp add: n_def calculate_median_int16_def)
  next
    case one
    then obtain x where "data = [x]" unfolding n_def by (cases data) auto
    then show ?thesis by (simp add: calculate_median_int16_def)
  next
    case odd
    define r where "r = quickselect_int16 data 0 (n - 1) (n div 2)"
    have "length (snd r) = length data \<and> mset (snd r) = mset data \<and>
          fst r = snd r ! (n div 2) \<and> selected (snd r) (n div 2)"
      unfolding r_def using odd isolated_whole[of data]
      by (intro quickselect_spec) (simp_all add: n_def)
    then have "sint (fst r) = sort (map sint (snd r)) ! (n div 2)"
      and "mset (snd r) = mset data"
      using odd selected_sorted_nth[of "snd r" "n div 2"] by (simp_all add: n_def)
    then have "sint (fst r) = sort (map sint data) ! (n div 2)"
      using sort_cong_mset[of "snd r" data] by simp
    moreover have "calculate_median_int16 data n = fst r"
      using odd by (simp add: calculate_median_int16_def r_def odd_iff_mod_2_eq_one)
    ultimately show ?thesis using odd by (auto simp add: n_def)
  next
    case even
    define k1 where "k1 = n div 2 - 1"
    define k2 where "k2 = n div 2"
    define r1 where "r1 = quickselect_int16 data 0 (n - 1) k1"
    define r2 where "r2 = quickselect_int16 (snd r1) (k1 + 1) (n - 1) k2"
    have kb: "k1 < n" "k2 < n" "k1 + 1 = k2" "k2 \<le> n - 1"
      using even by (auto simp add: k1_def k2_def elim: evenE)
    have s1: "length (snd r1) = length data \<and> mset (snd r1) = mset data \<and>
              fst r1 = snd r1 ! k1 \<and> selected (snd r1) k1"
      unfolding r1_def using kb isolated_whole[of data]
      by (intro quickselect_spec) (simp_all add: n_def)
    then have m1: "sint (fst r1) = sort (map sint data) ! k1"
      using kb selected_sorted_nth[of "snd r1" k1] sort_cong_mset[of "snd r1" data]
      by (simp add: n_def)
    have iso: "isolated (snd r1) (k1 + 1) (n - 1)"
      using selected_isolated_right[of "snd r1" k1] s1 kb by (simp add: n_def)
    have s2: "length (snd r2) = length (snd r1) \<and> mset (snd r2) = mset (snd r1) \<and>
              fst r2 = snd r2 ! k2 \<and> selected (snd r2) k2"
      unfolding r2_def using kb s1 iso
      by (intro quickselect_spec) (simp_all add: n_def)
    then have "mset (snd r2) = mset data" using s1 by simp
    then have m2: "sint (fst r2) = sort (map sint data) ! k2"
      using kb s1 s2 selected_sorted_nth[of "snd r2" k2] sort_cong_mset[of "snd r2" data]
      by (simp add: n_def)
    have "calculate_median_int16 data n =
            word_of_int (c_div (sint (fst r1) + sint (fst r2)) 2)"
      using even
      by (simp add: calculate_median_int16_def Let_def r1_def r2_def k1_def k2_def)
    moreover have "sint (word_of_int (c_div (sint (fst r1) + sint (fst r2)) 2) :: i16) =
            c_div (sint (fst r1) + sint (fst r2)) 2"
      using c_div_2_range[of "sint (fst r1)" "sint (fst r2)"]
        sint_i16_range[of "fst r1"] sint_i16_range[of "fst r2"]
      by (intro sint_word_of_int_i16) simp_all
    ultimately show ?thesis
      using even m1 m2 by (auto simp add: n_def k1_def k2_def)
  qed
qed

end
